theory Spec2Isabelle
  imports Main
begin

section \<open>Strings of the server\<close>

text \<open>
  The validation engine of \<^verbatim>\<open>server/src/server.ts\<close> works on the text of one document.
  A text is a \<^typ>\<open>string\<close>: one \<^typ>\<open>char\<close> stands for one code unit of the source's
  string, and the model covers the texts whose code units are below 256.
\<close>

text \<open>
  White space as \<^verbatim>\<open>String.prototype.trim\<close> and the class \<^verbatim>\<open>\s\<close> of a regular expression
  see it: tab, line feed, vertical tab, form feed, carriage return, space and the
  no-break space (the members of the source's set that lie below 256).
\<close>

definition isWhiteSpace :: "char \<Rightarrow> bool" where
  "isWhiteSpace c =
     (c = CHR 0x09 \<or> c = CHR 0x0A \<or> c = CHR 0x0B \<or> c = CHR 0x0C \<or> c = CHR 0x0D \<or>
      c = CHR 0x20 \<or> c = CHR 0xA0)"

definition newline :: char where
  "newline = CHR 0x0A"

definition isUpperAZ :: "char \<Rightarrow> bool" where
  "isUpperAZ c = (65 \<le> (of_char c :: nat) \<and> (of_char c :: nat) \<le> 90)"

definition isLowerAZ :: "char \<Rightarrow> bool" where
  "isLowerAZ c = (97 \<le> (of_char c :: nat) \<and> (of_char c :: nat) \<le> 122)"

definition isDigit :: "char \<Rightarrow> bool" where
  "isDigit c = (48 \<le> (of_char c :: nat) \<and> (of_char c :: nat) \<le> 57)"

text \<open>
  \<^verbatim>\<open>toLowerCase\<close> on one code unit below 256: the letters A to Z and the upper-case
  letters of Latin-1 (192 to 222, without the multiplication sign 215) move up by 32.
\<close>

definition lowerChar :: "char \<Rightarrow> char" where
  "lowerChar c =
     (let n = (of_char c :: nat)
      in if (65 \<le> n \<and> n \<le> 90) \<or> (192 \<le> n \<and> n \<le> 222 \<and> n \<noteq> 215)
         then char_of (n + 32) else c)"

definition toLowerCase :: "string \<Rightarrow> string" where
  "toLowerCase s = map lowerChar s"

text \<open>
  The canonical form of a code unit under the flag \<^verbatim>\<open>i\<close>: its upper-case form, when that
  is again one code unit and does not move a unit from 128 and above to below 128. Below
  256 this changes the letters a to z and the lower-case letters of Latin-1 (224 to 254,
  without the division sign 247). The micro sign and the y with diaeresis have their
  upper-case forms above 255; they stay as they are here, which no expression of the
  source can observe, since all its literals are ASCII.
\<close>

definition canonicalize :: "char \<Rightarrow> char" where
  "canonicalize c =
     (let n = (of_char c :: nat)
      in if (97 \<le> n \<and> n \<le> 122) \<or> (224 \<le> n \<and> n \<le> 254 \<and> n \<noteq> 247)
         then char_of (n - 32) else c)"

text \<open>\<^verbatim>\<open>trim\<close>: white space is removed at both ends.\<close>

definition trim :: "string \<Rightarrow> string" where
  "trim s = rev (dropWhile isWhiteSpace (rev (dropWhile isWhiteSpace s)))"

fun startsWith :: "string \<Rightarrow> string \<Rightarrow> bool" where
  "startsWith s [] = True"
| "startsWith [] (p # ps) = False"
| "startsWith (c # cs) (p # ps) = (c = p \<and> startsWith cs ps)"

definition endsWith :: "string \<Rightarrow> string \<Rightarrow> bool" where
  "endsWith s p = startsWith (rev s) (rev p)"

text \<open>
  \<^verbatim>\<open>s.split('\n')\<close>: the pieces between the line feeds; a text without a line feed is
  one piece, the empty text is one empty piece.
\<close>

fun split_lines :: "string \<Rightarrow> string list" where
  "split_lines [] = [[]]"
| "split_lines (c # cs) =
     (if c = newline then [] # split_lines cs
      else (case split_lines cs of [] \<Rightarrow> [[c]] | l # ls \<Rightarrow> (c # l) # ls))"

text \<open>
  \<^verbatim>\<open>s.indexOf(p)\<close>: the offset of the first occurrence of \<open>p\<close> in \<open>s\<close>, and -1 when
  there is none.
\<close>

fun indexOf_from :: "string \<Rightarrow> string \<Rightarrow> nat \<Rightarrow> int" where
  "indexOf_from [] p i = (if p = [] then int i else -1)"
| "indexOf_from (c # cs) p i =
     (if startsWith (c # cs) p then int i else indexOf_from cs p (Suc i))"

definition indexOf :: "string \<Rightarrow> string \<Rightarrow> int" where
  "indexOf s p = indexOf_from s p 0"

definition str_includes :: "string \<Rightarrow> string \<Rightarrow> bool" where
  "str_includes s p = (indexOf s p \<noteq> -1)"

text \<open>
  \<^verbatim>\<open>s.substring(0, e)\<close>: a negative end counts as 0 and an end beyond the text as its
  length.
\<close>

definition substring0 :: "string \<Rightarrow> int \<Rightarrow> string" where
  "substring0 s e = take (nat (max 0 e)) s"

text \<open>
  The line of an offset, as the source computes it at every diagnostic:
  \<^verbatim>\<open>text.substring(0, errorPos).split('\n').length - 1\<close>.
\<close>

definition lineOf :: "string \<Rightarrow> int \<Rightarrow> int" where
  "lineOf fullText errorPos = int (length (split_lines (substring0 fullText errorPos))) - 1"

section \<open>Regular expressions of the server\<close>

text \<open>
  Every regular expression of the source is a sequence of single-character atoms, each
  taken once, optionally (\<^verbatim>\<open>?\<close>), greedily repeated (\<^verbatim>\<open>*\<close>) or lazily repeated
  (\<^verbatim>\<open>*?\<close>), with at most one capture group and always with the flag \<^verbatim>\<open>i\<close>. The
  matcher below is the backtracking matcher of the language for this fragment: a greedy
  repetition first tries one more character, a lazy one first tries the rest of the
  expression.
\<close>

datatype cclass =
  Lit char        \<comment> \<open>a literal character, compared in canonical form\<close>
| WS              \<comment> \<open>\<^verbatim>\<open>\s\<close>\<close>
| NotGt           \<comment> \<open>\<^verbatim>\<open>[^>]\<close>\<close>
| AnyChar         \<comment> \<open>\<^verbatim>\<open>[\s\S]\<close>\<close>
| Alpha           \<comment> \<open>\<^verbatim>\<open>[a-zA-Z]\<close>\<close>
| AlphaNum        \<comment> \<open>\<^verbatim>\<open>[a-zA-Z0-9]\<close>\<close>

fun cmatch :: "cclass \<Rightarrow> char \<Rightarrow> bool" where
  "cmatch (Lit l) c = (canonicalize c = canonicalize l)"
| "cmatch WS c = isWhiteSpace c"
| "cmatch NotGt c = (c \<noteq> CHR ''>'')"
| "cmatch AnyChar c = True"
| "cmatch Alpha c = (isUpperAZ c \<or> isLowerAZ c)"
| "cmatch AlphaNum c = (isUpperAZ c \<or> isLowerAZ c \<or> isDigit c)"

datatype piece =
  One cclass
| Opt cclass
| Star cclass
| LazyStar cclass
| GroupOpen
| GroupClose

type_synonym regex = "piece list"

text \<open>
  \<open>rmatch ps s n g\<close> matches \<open>ps\<close> at the head of \<open>s\<close>, where \<open>n\<close> characters of the
  match are already consumed and \<open>g\<close> holds the offsets at which the capture group
  opened and closed. It yields the length of the whole match and the group's offsets,
  all relative to the start of the match.
\<close>

fun rmatch :: "regex \<Rightarrow> string \<Rightarrow> nat \<Rightarrow> nat \<times> nat \<Rightarrow> (nat \<times> nat \<times> nat) option" where
  "rmatch [] s n g = Some (n, g)"
| "rmatch (One c # ps) [] n g = None"
| "rmatch (One c # ps) (x # xs) n g = (if cmatch c x then rmatch ps xs (Suc n) g else None)"
| "rmatch (Opt c # ps) [] n g = rmatch ps [] n g"
| "rmatch (Opt c # ps) (x # xs) n g =
     (if cmatch c x
      then (case rmatch ps xs (Suc n) g of Some r \<Rightarrow> Some r | None \<Rightarrow> rmatch ps (x # xs) n g)
      else rmatch ps (x # xs) n g)"
| "rmatch (Star c # ps) [] n g = rmatch ps [] n g"
| "rmatch (Star c # ps) (x # xs) n g =
     (if cmatch c x
      then (case rmatch (Star c # ps) xs (Suc n) g of Some r \<Rightarrow> Some r
            | None \<Rightarrow> rmatch ps (x # xs) n g)
      else rmatch ps (x # xs) n g)"
| "rmatch (LazyStar c # ps) [] n g = rmatch ps [] n g"
| "rmatch (LazyStar c # ps) (x # xs) n g =
     (case rmatch ps (x # xs) n g of Some r \<Rightarrow> Some r
      | None \<Rightarrow> if cmatch c x then rmatch (LazyStar c # ps) xs (Suc n) g else None)"
| "rmatch (GroupOpen # ps) s n g = rmatch ps s n (n, snd g)"
| "rmatch (GroupClose # ps) s n g = rmatch ps s n (fst g, n)"

text \<open>
  The result of a successful \<^verbatim>\<open>exec\<close>: the offset of the match, the matched text
  (\<^verbatim>\<open>m[0]\<close>) and the text of the capture group (\<^verbatim>\<open>m[1]\<close>; the source reads it only
  from expressions whose group takes part in every match).
\<close>

record RegExpMatch =
  index :: nat
  matched :: string
  group1 :: string

text \<open>The match object for a match at offset \<open>i\<close>, where \<open>s\<close> is the text from \<open>i\<close> on.\<close>

definition mkMatch :: "nat \<Rightarrow> string \<Rightarrow> nat \<times> nat \<times> nat \<Rightarrow> RegExpMatch" where
  "mkMatch i s r =
     (case r of (n, a, b) \<Rightarrow>
        \<lparr>index = i, matched = take n s, group1 = take (b - a) (drop a s)\<rparr>)"

text \<open>The leftmost match in \<open>s\<close>, which is the text from offset \<open>i\<close> on.\<close>

fun search :: "regex \<Rightarrow> string \<Rightarrow> nat \<Rightarrow> RegExpMatch option" where
  "search ps [] i =
     (case rmatch ps [] 0 (0, 0) of Some r \<Rightarrow> Some (mkMatch i [] r) | None \<Rightarrow> None)"
| "search ps (x # xs) i =
     (case rmatch ps (x # xs) 0 (0, 0) of
        Some r \<Rightarrow> Some (mkMatch i (x # xs) r)
      | None \<Rightarrow> search ps xs (Suc i))"

text \<open>\<^verbatim>\<open>re.exec(s)\<close> with \<^verbatim>\<open>re.lastIndex = lastIndex\<close>.\<close>

definition regex_exec :: "regex \<Rightarrow> string \<Rightarrow> nat \<Rightarrow> RegExpMatch option" where
  "regex_exec ps s lastIndex =
     (if lastIndex > length s then None else search ps (drop lastIndex s) lastIndex)"

lemma rmatch_bounds:
  "rmatch ps s n g = Some (n', a, b) \<Longrightarrow> n \<le> n' \<and> n' \<le> n + length s"
  by (induction ps s n g rule: rmatch.induct) (fastforce split: if_splits option.splits)+

lemma search_bounds:
  "search ps s i = Some m \<Longrightarrow>
     i \<le> index m \<and> index m + length (matched m) \<le> i + length s"
proof (induction s arbitrary: i)
  case Nil
  then show ?case by (auto simp: mkMatch_def split: option.splits)
next
  case (Cons x xs)
  show ?case
  proof (cases "rmatch ps (x # xs) 0 (0, 0)")
    case None
    with Cons.prems have "search ps xs (Suc i) = Some m" by simp
    from Cons.IH [OF this] show ?thesis by simp
  next
    case (Some r)
    with Cons.prems show ?thesis by (cases r) (auto simp: mkMatch_def)
  qed
qed

lemma regex_exec_bounds:
  assumes "regex_exec ps s lastIndex = Some m"
  shows "lastIndex \<le> index m \<and> index m + length (matched m) \<le> length s"
proof -
  from assms have le: "lastIndex \<le> length s"
    and se: "search ps (drop lastIndex s) lastIndex = Some m"
    by (auto simp: regex_exec_def split: if_splits)
  from search_bounds [OF se] le show ?thesis by simp
qed

text \<open>
  \<^verbatim>\<open>s.match(re)\<close> for an expression with the flag \<^verbatim>\<open>g\<close>: the matched texts from left to
  right, each search starting where the match before it ended (one further when that
  match was empty), and \<^verbatim>\<open>null\<close> (here \<open>None\<close>) when there is no match at all.
\<close>

function match_loop :: "regex \<Rightarrow> string \<Rightarrow> nat \<Rightarrow> string list" where
  "match_loop ps s lastIndex =
     (case regex_exec ps s lastIndex of
        None \<Rightarrow> []
      | Some m \<Rightarrow>
          matched m #
          match_loop ps s
            (if matched m = [] then Suc (index m) else index m + length (matched m)))"
  by pat_completeness auto
termination
proof (relation "measure (\<lambda>(ps, s, lastIndex). Suc (length s) - lastIndex)")
  show "wf (measure (\<lambda>(ps, s, lastIndex). Suc (length s) - lastIndex))" by simp
next
  fix ps :: regex and s :: string and lastIndex :: nat and m :: RegExpMatch
  assume "regex_exec ps s lastIndex = Some m"
  from regex_exec_bounds [OF this]
  show "((ps, s, if matched m = [] then Suc (index m) else index m + length (matched m)),
         (ps, s, lastIndex))
        \<in> measure (\<lambda>(ps, s, lastIndex). Suc (length s) - lastIndex)"
    by (cases "matched m") auto
qed

declare match_loop.simps [simp del]

definition match_global :: "regex \<Rightarrow> string \<Rightarrow> string list option" where
  "match_global ps s = (case match_loop ps s 0 of [] \<Rightarrow> None | m # ms \<Rightarrow> Some (m # ms))"

text \<open>\<^verbatim>\<open>s.match(re)\<close> for an expression without the flag \<^verbatim>\<open>g\<close>: the leftmost match.\<close>

definition match_first :: "regex \<Rightarrow> string \<Rightarrow> RegExpMatch option" where
  "match_first ps s = regex_exec ps s 0"






subsection \<open>The expressions\<close>

definition lits :: "string \<Rightarrow> regex" where
  "lits s = map (\<lambda>c. One (Lit c)) s"

text \<open>\<^verbatim>\<open><\s*NAME[^>]*>\<close>\<close>

definition openTag :: "string \<Rightarrow> regex" where
  "openTag name = [One (Lit CHR ''<''), Star WS] @ lits name @ [Star NotGt, One (Lit CHR ''>'')]"

text \<open>\<^verbatim>\<open><\s*\/\s*NAME\s*>\<close>\<close>

definition closeTag :: "string \<Rightarrow> regex" where
  "closeTag name =
     [One (Lit CHR ''<''), Star WS, One (Lit CHR ''/''), Star WS] @ lits name @
     [Star WS, One (Lit CHR ''>'')]"

text \<open>\<^verbatim>\<open><\s*NAME[^>]*>([\s\S]*?)<\s*\/\s*NAME\s*>\<close>, with the capture group.\<close>

definition pairRegexG :: "string \<Rightarrow> regex" where
  "pairRegexG name =
     openTag name @ [GroupOpen, LazyStar AnyChar, GroupClose] @ closeTag name"

text \<open>\<^verbatim>\<open><\s*NAME[^>]*>[\s\S]*?<\s*\/\s*NAME\s*>\<close>, without a group.\<close>

definition pairRegex :: "string \<Rightarrow> regex" where
  "pairRegex name = openTag name @ [LazyStar AnyChar] @ closeTag name"

definition htmlRegex :: regex where
  "htmlRegex = pairRegexG ''html''"

text \<open>\<^verbatim>\<open><\s*\/?\s*([a-zA-Z][a-zA-Z0-9]*)[^>]*\/?\s*>\<close>\<close>

definition elementRegex :: regex where
  "elementRegex =
     [One (Lit CHR ''<''), Star WS, Opt (Lit CHR ''/''), Star WS,
      GroupOpen, One Alpha, Star AlphaNum, GroupClose,
      Star NotGt, Opt (Lit CHR ''/''), Star WS, One (Lit CHR ''>'')]"

text \<open>\<^verbatim>\<open><\s*\/?\s*([a-zA-Z][a-zA-Z0-9]*)\<close>\<close>

definition tagNameRegex :: regex where
  "tagNameRegex =
     [One (Lit CHR ''<''), Star WS, Opt (Lit CHR ''/''), Star WS,
      GroupOpen, One Alpha, Star AlphaNum, GroupClose]"

section \<open>Diagnostics\<close>

datatype DiagnosticSeverity = Error | Warning | Information | Hint

record Position =
  line :: int
  character :: int

record Range =
  range_start :: Position
  range_end :: Position

record Diagnostic =
  severity :: DiagnosticSeverity
  drange :: Range
  message :: string

text \<open>
  The diagnostic that every rule from 3 on builds: an error on the line of
  \<open>errorPos\<close>, from column 0 to column \<open>len\<close>.
\<close>

definition lineDiagnostic :: "string \<Rightarrow> int \<Rightarrow> int \<Rightarrow> string \<Rightarrow> Diagnostic" where
  "lineDiagnostic fullText errorPos len msg =
     \<lparr>severity = Error,
      drange = \<lparr>range_start = \<lparr>line = lineOf fullText errorPos, character = 0\<rparr>,
                range_end = \<lparr>line = lineOf fullText errorPos, character = len\<rparr>\<rparr>,
      message = msg\<rparr>"

section \<open>The content validators\<close>

text \<open>
  The array \<^verbatim>\<open>diagnostics\<close> is shared by all validators and only grows by
  \<^verbatim>\<open>push\<close>: each function takes the list built so far and returns the extended one.
\<close>

text \<open>The body of the loop of \<^verbatim>\<open>validateHeadContent\<close> (rule 3).\<close>

definition headStep :: "string \<Rightarrow> Diagnostic list \<Rightarrow> string \<Rightarrow> Diagnostic list" where
  "headStep fullText diagnostics element =
     (case match_first tagNameRegex element of
        None \<Rightarrow> diagnostics
      | Some tagName \<Rightarrow>
          (let name = toLowerCase (group1 tagName)
           in if name \<noteq> ''title'' \<and> name \<noteq> ''meta'' \<and> \<not> str_includes element ''/>''
              then diagnostics @
                [lineDiagnostic fullText (indexOf fullText element) (int (length element))
                   ''<head> may contain only <title> or <meta> elements'']
              else diagnostics))"

definition validateHeadContent :: "string \<Rightarrow> string \<Rightarrow> Diagnostic list \<Rightarrow> Diagnostic list" where
  "validateHeadContent headContent fullText diagnostics =
     (case match_global elementRegex headContent of
        None \<Rightarrow> diagnostics
      | Some elements \<Rightarrow> foldl (headStep fullText) diagnostics elements)"

text \<open>The body of the first loop of \<^verbatim>\<open>validateBodyContent\<close> (rule 4).\<close>

definition bodyStep :: "string \<Rightarrow> Diagnostic list \<Rightarrow> string \<Rightarrow> Diagnostic list" where
  "bodyStep fullText diagnostics element =
     (case match_first tagNameRegex element of
        None \<Rightarrow> diagnostics
      | Some tagName \<Rightarrow>
          (let name = toLowerCase (group1 tagName)
           in if name \<noteq> ''div'' \<and> name \<noteq> ''span'' \<and> \<not> str_includes element ''/>''
              then diagnostics @
                [lineDiagnostic fullText (indexOf fullText element) (int (length element))
                   ''<body> may contain only <div> or <span> elements'']
              else diagnostics))"

definition bodyElements :: "string \<Rightarrow> string \<Rightarrow> Diagnostic list \<Rightarrow> Diagnostic list" where
  "bodyElements bodyContent fullText diagnostics =
     (case match_global elementRegex bodyContent of
        None \<Rightarrow> diagnostics
      | Some elements \<Rightarrow> foldl (bodyStep fullText) diagnostics elements)"

section \<open>The nesting validator\<close>

text \<open>Rule 5, the first loop of \<^verbatim>\<open>validateNesting\<close>: a title holds only text.\<close>

definition titleStep :: "string \<Rightarrow> Diagnostic list \<Rightarrow> string \<Rightarrow> Diagnostic list" where
  "titleStep fullText diagnostics titleMatch =
     (case match_first (pairRegexG ''title'') titleMatch of
        None \<Rightarrow> diagnostics
      | Some innerContent \<Rightarrow>
          if str_includes (group1 innerContent) ''<''
          then diagnostics @
            [lineDiagnostic fullText (indexOf fullText titleMatch) (int (length titleMatch))
               ''<title> can contain only text'']
          else diagnostics)"

definition titleRule :: "string \<Rightarrow> string \<Rightarrow> Diagnostic list \<Rightarrow> Diagnostic list" where
  "titleRule content fullText diagnostics =
     (case match_global (pairRegexG ''title'') content of
        None \<Rightarrow> diagnostics
      | Some titleMatches \<Rightarrow> foldl (titleStep fullText) diagnostics titleMatches)"

text \<open>Rule 6, the second loop: a span holds no opening tag of a div.\<close>

definition spanStep :: "string \<Rightarrow> Diagnostic list \<Rightarrow> string \<Rightarrow> Diagnostic list" where
  "spanStep fullText diagnostics spanMatch =
     (case match_first (pairRegexG ''span'') spanMatch of
        None \<Rightarrow> diagnostics
      | Some innerContent \<Rightarrow>
          (case match_global (openTag ''div'') (group1 innerContent) of
             None \<Rightarrow> diagnostics
           | Some divMatches \<Rightarrow>
               diagnostics @
               [lineDiagnostic fullText (indexOf fullText spanMatch) (int (length spanMatch))
                  ''<span> cannot contain <div> elements'']))"

definition spanRule :: "string \<Rightarrow> string \<Rightarrow> Diagnostic list \<Rightarrow> Diagnostic list" where
  "spanRule content fullText diagnostics =
     (case match_global (pairRegex ''span'') content of
        None \<Rightarrow> diagnostics
      | Some spanMatches \<Rightarrow> foldl (spanStep fullText) diagnostics spanMatches)"

lemma rmatch_group_kept:
  "rmatch ps s n g = Some (n', a, b) \<Longrightarrow> GroupOpen \<notin> set ps \<Longrightarrow> a = fst g"
  by (induction ps s n g rule: rmatch.induct) (fastforce split: if_splits option.splits)+

lemma rmatch_group_open:
  "rmatch ps s n g = Some (n', a, b) \<Longrightarrow> GroupOpen \<in> set ps \<Longrightarrow> n \<le> a \<and> a \<le> n'"
proof (induction ps s n g rule: rmatch.induct)
  case (10 ps s n g)
  show ?case
  proof (cases "GroupOpen \<in> set ps")
    case True
    with 10 show ?thesis by simp
  next
    case False
    from 10 have r: "rmatch ps s n (n, snd g) = Some (n', a, b)" by simp
    from rmatch_group_kept [OF r False] rmatch_bounds [OF r] show ?thesis by simp
  qed
qed (fastforce split: if_splits option.splits)+

lemma search_witness:
  "search ps s i = Some m \<Longrightarrow>
     \<exists>j r. j \<le> length s \<and> rmatch ps (drop j s) 0 (0, 0) = Some r \<and>
           m = mkMatch (i + j) (drop j s) r"
proof (induction s arbitrary: i)
  case Nil
  then show ?case by (auto split: option.splits)
next
  case (Cons x xs)
  show ?case
  proof (cases "rmatch ps (x # xs) 0 (0, 0)")
    case None
    with Cons.prems have "search ps xs (Suc i) = Some m" by simp
    from Cons.IH [OF this] obtain j r where
      "j \<le> length xs" "rmatch ps (drop j xs) 0 (0, 0) = Some r"
      "m = mkMatch (Suc i + j) (drop j xs) r" by blast
    then have "Suc j \<le> length (x # xs) \<and> rmatch ps (drop (Suc j) (x # xs)) 0 (0, 0) = Some r \<and>
      m = mkMatch (i + Suc j) (drop (Suc j) (x # xs)) r" by simp
    then show ?thesis by blast
  next
    case (Some r)
    with Cons.prems have "0 \<le> length (x # xs) \<and> rmatch ps (drop 0 (x # xs)) 0 (0, 0) = Some r \<and>
      m = mkMatch (i + 0) (drop 0 (x # xs)) r" by simp
    then show ?thesis by blast
  qed
qed

lemma group1_shorter:
  assumes "match_first (pairRegexG name) m = Some ic"
  shows "length (group1 ic) < length m"
proof -
  from assms have "search (pairRegexG name) m 0 = Some ic"
    by (simp add: match_first_def regex_exec_def)
  from search_witness [OF this] obtain j r where
    r: "rmatch (pairRegexG name) (drop j m) 0 (0, 0) = Some r"
    and ic: "ic = mkMatch j (drop j m) r" by auto
  obtain n a b where rr: "r = (n, a, b)" by (cases r) auto
  obtain ps where ps: "pairRegexG name = One (Lit CHR ''<'') # ps" "GroupOpen \<in> set ps"
    by (auto simp: pairRegexG_def openTag_def)
  from r ps rr obtain x xs where xs: "drop j m = x # xs"
    and r': "rmatch ps xs (Suc 0) (0, 0) = Some (n, a, b)"
    by (cases "drop j m") (auto split: if_splits)
  from rmatch_group_open [OF r' ps(2)] have "1 \<le> a" by simp
  with ic rr xs have "length (group1 ic) \<le> length xs" by (simp add: mkMatch_def)
  also have "\<dots> < length (drop j m)" using xs by simp
  also have "\<dots> \<le> length m" by simp
  finally show ?thesis .
qed

lemma match_loop_length:
  "x \<in> set (match_loop ps s lastIndex) \<Longrightarrow> length x \<le> length s"
proof (induction ps s lastIndex rule: match_loop.induct)
  case (1 ps s lastIndex)
  show ?case
  proof (cases "regex_exec ps s lastIndex")
    case None
    with "1.prems" show ?thesis by (subst (asm) match_loop.simps) simp
  next
    case (Some m)
    with "1.prems" have "x = matched m \<or>
      x \<in> set (match_loop ps s (if matched m = [] then Suc (index m) else index m + length (matched m)))"
      by (subst (asm) match_loop.simps) simp
    then show ?thesis
    proof
      assume "x = matched m"
      with regex_exec_bounds [OF Some] show ?thesis by simp
    next
      assume "x \<in> set (match_loop ps s (if matched m = [] then Suc (index m) else index m + length (matched m)))"
      from "1.IH" [OF Some this] show ?thesis .
    qed
  qed
qed

lemma match_global_Some:
  "match_global ps s = Some ms \<Longrightarrow> ms = match_loop ps s 0"
  by (auto simp: match_global_def split: list.splits)

lemma match_global_length:
  assumes "match_global ps s = Some ms" and "x \<in> set ms"
  shows "length x \<le> length s"
proof -
  from assms(1) have "ms = match_loop ps s 0" by (rule match_global_Some)
  with assms(2) have "x \<in> set (match_loop ps s 0)" by simp
  then show ?thesis by (rule match_loop_length)
qed

function validateNesting ::
  "string \<Rightarrow> string \<Rightarrow> Diagnostic list \<Rightarrow> string list \<Rightarrow> Diagnostic list" where
  "validateNesting content fullText diagnostics context =
     foldl (\<lambda>d spanMatch.
              case match_first (pairRegexG ''span'') spanMatch of
                None \<Rightarrow> d
              | Some innerContent \<Rightarrow>
                  validateNesting (group1 innerContent) fullText d (context @ [''span'']))
       (foldl (\<lambda>d divMatch.
                 case match_first (pairRegexG ''div'') divMatch of
                   None \<Rightarrow> d
                 | Some innerContent \<Rightarrow>
                     validateNesting (group1 innerContent) fullText d (context @ [''div'']))
          (spanRule content fullText (titleRule content fullText diagnostics))
          (case match_global (pairRegexG ''div'') content of
             None \<Rightarrow> [] | Some divMatches \<Rightarrow> divMatches))
       (case match_global (pairRegexG ''span'') content of
          None \<Rightarrow> [] | Some spanMatchesRecursive \<Rightarrow> spanMatchesRecursive)"
  by pat_completeness auto
termination
proof (relation "measure (\<lambda>(content, fullText, diagnostics, context). length content)")
  show "wf (measure (\<lambda>(content, fullText, diagnostics, context). length (content :: string)))"
    by simp
next
  fix content fullText :: string and ctx :: "string list" and d :: "Diagnostic list"
    and divMatch :: string and innerContent :: RegExpMatch
  assume mem: "divMatch \<in> set (case match_global (pairRegexG ''div'') content of
                  None \<Rightarrow> [] | Some divMatches \<Rightarrow> divMatches)"
    and inner: "match_first (pairRegexG ''div'') divMatch = Some innerContent"
  from mem obtain divMatches where "match_global (pairRegexG ''div'') content = Some divMatches"
    and "divMatch \<in> set divMatches"
    by (cases "match_global (pairRegexG ''div'') content") auto
  then have "length divMatch \<le> length content"
    by (rule match_global_length)
  with group1_shorter [OF inner]
  show "((group1 innerContent, fullText, d, ctx @ [''div'']), (content, fullText, dgs, ctx))
        \<in> measure (\<lambda>(content, fullText, diagnostics, context). length content)" for dgs
    by simp
next
  fix content fullText :: string and ctx :: "string list" and d :: "Diagnostic list"
    and spanMatch :: string and innerContent :: RegExpMatch
  assume mem: "spanMatch \<in> set (case match_global (pairRegexG ''span'') content of
                  None \<Rightarrow> [] | Some spanMatchesRecursive \<Rightarrow> spanMatchesRecursive)"
    and inner: "match_first (pairRegexG ''span'') spanMatch = Some innerContent"
  from mem obtain spanMatches where "match_global (pairRegexG ''span'') content = Some spanMatches"
    and "spanMatch \<in> set spanMatches"
    by (cases "match_global (pairRegexG ''span'') content") auto
  then have "length spanMatch \<le> length content"
    by (rule match_global_length)
  with group1_shorter [OF inner]
  show "((group1 innerContent, fullText, d, ctx @ [''span'']), (content, fullText, dgs, ctx))
        \<in> measure (\<lambda>(content, fullText, diagnostics, context). length content)" for dgs
    by simp
qed

declare validateNesting.simps [simp del]

text \<open>
  \<^verbatim>\<open>validateBodyContent\<close>: rule 4 over the element tokens, then the nesting validator on the
  same text with the empty context.
\<close>

definition validateBodyContent :: "string \<Rightarrow> string \<Rightarrow> Diagnostic list \<Rightarrow> Diagnostic list" where
  "validateBodyContent bodyContent fullText diagnostics =
     validateNesting bodyContent fullText (bodyElements bodyContent fullText diagnostics) []"

section \<open>The validation pass\<close>

text \<open>Rule 1: the trimmed text starts with \<^verbatim>\<open><html>\<close> and ends with \<^verbatim>\<open></html>\<close>.\<close>

definition startDiagnostic :: Diagnostic where
  "startDiagnostic =
     \<lparr>severity = Error,
      drange = \<lparr>range_start = \<lparr>line = 0, character = 0\<rparr>,
                range_end = \<lparr>line = 0, character = 6\<rparr>\<rparr>,
      message = ''Document must start with <html>''\<rparr>"

text \<open>
  \<open>lineLength\<close> is \<^verbatim>\<open>lines[lastLine]?.length || 0\<close>: the length of the last line, and 0
  where there is no such line.
\<close>

definition endDiagnostic :: "string \<Rightarrow> Diagnostic" where
  "endDiagnostic text =
     (let lines = split_lines text;
          lastLine = int (length lines) - 1;
          lineLength = (case drop (nat lastLine) lines of [] \<Rightarrow> 0 | l # ls \<Rightarrow> int (length l))
      in \<lparr>severity = Error,
          drange = \<lparr>range_start = \<lparr>line = lastLine, character = max 0 (lineLength - 7)\<rparr>,
                    range_end = \<lparr>line = lastLine, character = lineLength\<rparr>\<rparr>,
          message = ''Document must end with </html>''\<rparr>)"

definition rule1 :: "string \<Rightarrow> Diagnostic list \<Rightarrow> Diagnostic list" where
  "rule1 text diagnostics =
     (let d1 = (if \<not> startsWith (trim text) ''<html>''
                then diagnostics @ [startDiagnostic] else diagnostics)
      in if \<not> endsWith (trim text) ''</html>'' then d1 @ [endDiagnostic text] else d1)"

text \<open>
  The diagnostic of rule 2 for one tag: the offset is looked up in the whole text when
  the tag's opening occurs in the content of the html element, and is 0 otherwise.
\<close>

definition cardinalityDiagnostic :: "string \<Rightarrow> string \<Rightarrow> string \<Rightarrow> string \<Rightarrow> Diagnostic" where
  "cardinalityDiagnostic text content tagOpen msg =
     (let errorPos = (if indexOf content tagOpen \<noteq> -1 then indexOf text tagOpen else 0)
      in lineDiagnostic text errorPos 10 msg)"

text \<open>
  The body of the loop over the matches of the html expression. \<open>m\<close> is the match;
  the locals \<^verbatim>\<open>htmlStart\<close> and \<^verbatim>\<open>htmlEnd\<close> are written and never read, and are left
  out.
\<close>

definition htmlStep :: "string \<Rightarrow> RegExpMatch \<Rightarrow> Diagnostic list \<Rightarrow> Diagnostic list" where
  "htmlStep text m diagnostics =
     (let content = group1 m;
          headMatches = match_global (pairRegex ''head'') content;
          bodyMatches = match_global (pairRegex ''body'') content;
          headCount = (case headMatches of None \<Rightarrow> 0 | Some hs \<Rightarrow> length hs);
          bodyCount = (case bodyMatches of None \<Rightarrow> 0 | Some bs \<Rightarrow> length bs);
          d1 = (if headCount \<noteq> 1
                then diagnostics @
                  [cardinalityDiagnostic text content ''<head''
                     ''HTML must contain exactly one <head> element'']
                else diagnostics);
          d2 = (if bodyCount \<noteq> 1
                then d1 @
                  [cardinalityDiagnostic text content ''<body''
                     ''HTML must contain exactly one <body> element'']
                else d1);
          d3 = (case headMatches of
                  None \<Rightarrow> d2
                | Some hs \<Rightarrow> if length hs = 1 then validateHeadContent (hs ! 0) text d2 else d2)
      in (case bodyMatches of
            None \<Rightarrow> d3
          | Some bs \<Rightarrow> if length bs = 1 then validateBodyContent (bs ! 0) text d3 else d3))"

lemma htmlRegex_nonempty:
  assumes "regex_exec htmlRegex text lastIndex = Some m"
  shows "matched m \<noteq> []"
proof -
  from assms have "search htmlRegex (drop lastIndex text) lastIndex = Some m"
    by (auto simp: regex_exec_def split: if_splits)
  from search_witness [OF this] obtain j r where
    r: "rmatch htmlRegex (drop j (drop lastIndex text)) 0 (0, 0) = Some r"
    and m: "m = mkMatch (lastIndex + j) (drop j (drop lastIndex text)) r" by auto
  obtain n a b where rr: "r = (n, a, b)" by (cases r) auto
  obtain ps where ps: "htmlRegex = One (Lit CHR ''<'') # ps"
    by (auto simp: htmlRegex_def pairRegexG_def openTag_def)
  from r [unfolded ps rr] obtain x xs where xs: "drop j (drop lastIndex text) = x # xs"
    and r': "rmatch ps xs (Suc 0) (0, 0) = Some (n, a, b)"
    by (cases "drop j (drop lastIndex text)") (auto split: if_splits)
  from rmatch_bounds [OF r'] have "1 \<le> n" by simp
  with m rr xs show ?thesis by (auto simp: mkMatch_def)
qed

text \<open>
  The loop \<^verbatim>\<open>while ((match = htmlRegex.exec(text)) !== null)\<close>: the expression keeps
  its \<^verbatim>\<open>lastIndex\<close> between the calls, and a match sets it to the end of the match.
\<close>

function htmlLoop :: "string \<Rightarrow> nat \<Rightarrow> Diagnostic list \<Rightarrow> Diagnostic list" where
  "htmlLoop text lastIndex diagnostics =
     (case regex_exec htmlRegex text lastIndex of
        None \<Rightarrow> diagnostics
      | Some m \<Rightarrow> htmlLoop text (index m + length (matched m)) (htmlStep text m diagnostics))"
  by pat_completeness auto
termination
proof (relation "measure (\<lambda>(text, lastIndex, diagnostics). Suc (length text) - lastIndex)")
  show "wf (measure (\<lambda>(text, lastIndex, diagnostics). Suc (length (text :: string)) - lastIndex))"
    by simp
next
  fix doc :: string and lastIndex :: nat and diagnostics :: "Diagnostic list"
    and m :: RegExpMatch
  assume ex: "regex_exec htmlRegex doc lastIndex = Some m"
  from htmlRegex_nonempty [OF ex] have "0 < length (matched m)" by simp
  with regex_exec_bounds [OF ex]
  show "((doc, index m + length (matched m), htmlStep doc m diagnostics),
         (doc, lastIndex, diagnostics))
        \<in> measure (\<lambda>(text, lastIndex, diagnostics). Suc (length text) - lastIndex)"
    by (cases "matched m") auto
qed

declare htmlLoop.simps [simp del]

text \<open>
  The block under \<^verbatim>\<open>try\<close> when the runtime raises nothing in it: rule 1, then the loop
  over the matches of the html expression, whose object is created by the block with
  \<^verbatim>\<open>lastIndex\<close> 0.
\<close>

definition validate :: "string \<Rightarrow> Diagnostic list" where
  "validate text = htmlLoop text 0 (rule1 text [])"







record PublishDiagnosticsParams =
  params_uri :: string
  params_version :: int
  diagnostics :: "Diagnostic list"





section \<open>Notions used in the statements\<close>

text \<open>
  The matches of an expression with the flag \<^verbatim>\<open>g\<close> as a list: the source treats
  \<^verbatim>\<open>null\<close> as no match at every call.
\<close>

definition matches :: "regex \<Rightarrow> string \<Rightarrow> string list" where
  "matches ps s = (case match_global ps s of None \<Rightarrow> [] | Some ms \<Rightarrow> ms)"

text \<open>
  What the nesting validator pushes for one match of the div or span expression in its
  third and fourth loop: the diagnostics of the recursive call on the captured text.
\<close>

definition descend :: "string \<Rightarrow> string \<Rightarrow> string \<Rightarrow> Diagnostic list" where
  "descend name ft m =
     (case match_first (pairRegexG name) m of
        None \<Rightarrow> []
      | Some innerContent \<Rightarrow> validateNesting (group1 innerContent) ft [] [])"

text \<open>
  What the nesting validator, the body of the loop over the html matches and that loop
  push when they start from the empty array.
\<close>

definition nestingDiagnostics :: "string \<Rightarrow> string \<Rightarrow> Diagnostic list" where
  "nestingDiagnostics content fullText = validateNesting content fullText [] []"

definition stepDiagnostics :: "string \<Rightarrow> RegExpMatch \<Rightarrow> Diagnostic list" where
  "stepDiagnostics text m = htmlStep text m []"

definition loopDiagnostics :: "string \<Rightarrow> nat \<Rightarrow> Diagnostic list" where
  "loopDiagnostics text lastIndex = htmlLoop text lastIndex []"

text \<open>The condition under which rule 3 and rule 4 flag an element token.\<close>

definition headDisallowed :: "string \<Rightarrow> bool" where
  "headDisallowed element =
     (case match_first tagNameRegex element of
        None \<Rightarrow> False
      | Some tagName \<Rightarrow>
          toLowerCase (group1 tagName) \<noteq> ''title'' \<and> toLowerCase (group1 tagName) \<noteq> ''meta'' \<and>
          \<not> str_includes element ''/>'')"

definition bodyDisallowed :: "string \<Rightarrow> bool" where
  "bodyDisallowed element =
     (case match_first tagNameRegex element of
        None \<Rightarrow> False
      | Some tagName \<Rightarrow>
          toLowerCase (group1 tagName) \<noteq> ''div'' \<and> toLowerCase (group1 tagName) \<noteq> ''span'' \<and>
          \<not> str_includes element ''/>'')"

definition headDiagnostic :: "string \<Rightarrow> string \<Rightarrow> Diagnostic" where
  "headDiagnostic fullText element =
     lineDiagnostic fullText (indexOf fullText element) (int (length element))
       ''<head> may contain only <title> or <meta> elements''"

definition bodyDiagnostic :: "string \<Rightarrow> string \<Rightarrow> Diagnostic" where
  "bodyDiagnostic fullText element =
     lineDiagnostic fullText (indexOf fullText element) (int (length element))
       ''<body> may contain only <div> or <span> elements''"

text \<open>
  The same tests on the eight bits of a character (the lowest bit first), as equations
  for evaluation: the five low bits of a letter hold a number from 1 to 26.
\<close>

definition low5_letter :: "bool \<Rightarrow> bool \<Rightarrow> bool \<Rightarrow> bool \<Rightarrow> bool \<Rightarrow> bool" where
  "low5_letter b0 b1 b2 b3 b4 =
     ((b4 \<or> b3 \<or> b2 \<or> b1 \<or> b0) \<and> \<not> (b4 \<and> b3 \<and> (b2 \<or> (b1 \<and> b0))))"

definition low5_latin :: "bool \<Rightarrow> bool \<Rightarrow> bool \<Rightarrow> bool \<Rightarrow> bool \<Rightarrow> bool" where
  "low5_latin b0 b1 b2 b3 b4 =
     (\<not> (b4 \<and> b3 \<and> b2 \<and> b1 \<and> b0) \<and> \<not> (b4 \<and> \<not> b3 \<and> b2 \<and> b1 \<and> b0))"

text \<open>The messages of the nesting validator.\<close>

definition nestingMessages :: "string set" where
  "nestingMessages = {''<title> can contain only text'', ''<span> cannot contain <div> elements''}"

text \<open>The well-formed document of the specification's examples.\<close>

definition wellFormedDocument :: string where
  "wellFormedDocument =
     ''<html><head><title>T</title></head><body><div><span>x</span></div></body></html>''"

text \<open>
  A document whose html content holds two head blocks and one body block, and a document
  with an opening of a head tag before the html element.
\<close>

definition twoHeadsDocument :: string where
  "twoHeadsDocument =
     ''<html><head><title>A</title></head><head><title>B</title></head><body><div>x</div></body></html>''"

definition strayHeadDocument :: string where
  "strayHeadDocument = CHR 0x0A # ''<head>'' @ CHR 0x0A # ''<html></html>''"

text \<open>
  The three parts of what the loop body pushes for one match of the html expression:
  the diagnostic of rule 2 for head, the one for body, and the diagnostics of the
  content validators.
\<close>

definition headCardinality :: "string \<Rightarrow> RegExpMatch \<Rightarrow> Diagnostic list" where
  "headCardinality text m =
     (if length (matches (pairRegex ''head'') (group1 m)) \<noteq> 1
      then [lineDiagnostic text
              (if str_includes (group1 m) ''<head'' then indexOf text ''<head'' else 0) 10
              ''HTML must contain exactly one <head> element'']
      else [])"

definition bodyCardinality :: "string \<Rightarrow> RegExpMatch \<Rightarrow> Diagnostic list" where
  "bodyCardinality text m =
     (if length (matches (pairRegex ''body'') (group1 m)) \<noteq> 1
      then [lineDiagnostic text
              (if str_includes (group1 m) ''<body'' then indexOf text ''<body'' else 0) 10
              ''HTML must contain exactly one <body> element'']
      else [])"

definition contentDiagnostics :: "string \<Rightarrow> RegExpMatch \<Rightarrow> Diagnostic list" where
  "contentDiagnostics text m =
     (if length (matches (pairRegex ''head'') (group1 m)) = 1
      then validateHeadContent (matches (pairRegex ''head'') (group1 m) ! 0) text []
      else []) @
     (if length (matches (pairRegex ''body'') (group1 m)) = 1
      then validateBodyContent (matches (pairRegex ''body'') (group1 m) ! 0) text []
      else [])"

text \<open>
  The fragments that the nesting validator is called on when it starts from \<open>root\<close>:
  the root, and the captured text of every match of the div or the span expression in a
  fragment already reached.
\<close>

inductive processed :: "string \<Rightarrow> string \<Rightarrow> bool" for root :: string where
  root: "processed root root"
| inner: "processed root c \<Longrightarrow> name = ''div'' \<or> name = ''span'' \<Longrightarrow>
          m \<in> set (matches (pairRegexG name) c) \<Longrightarrow>
          match_first (pairRegexG name) m = Some ic \<Longrightarrow> processed root (group1 ic)"

text \<open>The conditions and the diagnostics of rule 5 and rule 6.\<close>

definition titleViolation :: "string \<Rightarrow> bool" where
  "titleViolation titleMatch =
     (case match_first (pairRegexG ''title'') titleMatch of
        None \<Rightarrow> False
      | Some innerContent \<Rightarrow> str_includes (group1 innerContent) ''<'')"

definition titleDiagnostic :: "string \<Rightarrow> string \<Rightarrow> Diagnostic" where
  "titleDiagnostic fullText titleMatch =
     lineDiagnostic fullText (indexOf fullText titleMatch) (int (length titleMatch))
       ''<title> can contain only text''"

definition spanViolation :: "string \<Rightarrow> bool" where
  "spanViolation spanMatch =
     (case match_first (pairRegexG ''span'') spanMatch of
        None \<Rightarrow> False
      | Some innerContent \<Rightarrow> match_global (openTag ''div'') (group1 innerContent) \<noteq> None)"

definition spanDiagnostic :: "string \<Rightarrow> string \<Rightarrow> Diagnostic" where
  "spanDiagnostic fullText spanMatch =
     lineDiagnostic fullText (indexOf fullText spanMatch) (int (length spanMatch))
       ''<span> cannot contain <div> elements''"

text \<open>
  The tokens of a text of nested divs and spans, and their characters; a token list is
  plain when no character token is \<^verbatim>\<open><\<close>.
\<close>

datatype token = OpenDiv | CloseDiv | OpenSpan | CloseSpan | Chr char

fun renderToken :: "token \<Rightarrow> string" where
  "renderToken OpenDiv = ''<div>''"
| "renderToken CloseDiv = ''</div>''"
| "renderToken OpenSpan = ''<span>''"
| "renderToken CloseSpan = ''</span>''"
| "renderToken (Chr c) = [c]"

definition renderTokens :: "token list \<Rightarrow> string" where
  "renderTokens ts = concat (map renderToken ts)"

definition plainText :: "token list \<Rightarrow> bool" where
  "plainText ts = (Chr CHR ''<'' \<notin> set ts)"

text \<open>
  Valid div/span nesting: a forest of text, div and span nodes in which a text holds no
  \<^verbatim>\<open><\<close> and a span holds no div. A node is rendered through its tokens.
  \<open>nestedDiv k\<close> is a span with a text inside \<open>k\<close> nested divs.
\<close>

datatype node = Text string | Div "node list" | Span "node list"

fun isDiv :: "node \<Rightarrow> bool" where
  "isDiv (Div ns) = True"
| "isDiv n = False"

fun valid :: "node \<Rightarrow> bool" where
  "valid (Text s) = (CHR ''<'' \<notin> set s)"
| "valid (Div ns) = (\<forall>n \<in> set ns. valid n)"
| "valid (Span ns) = (\<forall>n \<in> set ns. valid n \<and> \<not> isDiv n)"

fun tokens :: "node \<Rightarrow> token list" where
  "tokens (Text s) = map Chr s"
| "tokens (Div ns) = OpenDiv # concat (map tokens ns) @ [CloseDiv]"
| "tokens (Span ns) = OpenSpan # concat (map tokens ns) @ [CloseSpan]"

definition render :: "node \<Rightarrow> string" where
  "render n = renderTokens (tokens n)"

fun nestedDiv :: "nat \<Rightarrow> node" where
  "nestedDiv 0 = Span [Text ''x'']"
| "nestedDiv (Suc k) = Div [nestedDiv k]"

text \<open>The name of a tag expression with its opening and its closing token.\<close>

definition tagged :: "string \<Rightarrow> token \<Rightarrow> token \<Rightarrow> bool" where
  "tagged name opening closing =
     ((name = ''div'' \<and> opening = OpenDiv \<and> closing = CloseDiv) \<or>
      (name = ''span'' \<and> opening = OpenSpan \<and> closing = CloseSpan))"

text \<open>
  A scan over tokens that checks that no div opens between the opening of a span and
  the next closing of a span, and the state of that scan after a list of tokens.
\<close>

fun spanGuard :: "bool \<Rightarrow> token list \<Rightarrow> bool" where
  "spanGuard inSpan [] = True"
| "spanGuard inSpan (OpenSpan # ts) = spanGuard True ts"
| "spanGuard inSpan (CloseSpan # ts) = spanGuard False ts"
| "spanGuard inSpan (OpenDiv # ts) = (\<not> inSpan \<and> spanGuard inSpan ts)"
| "spanGuard inSpan (CloseDiv # ts) = spanGuard inSpan ts"
| "spanGuard inSpan (Chr c # ts) = spanGuard inSpan ts"

fun spanState :: "bool \<Rightarrow> token list \<Rightarrow> bool" where
  "spanState inSpan [] = inSpan"
| "spanState inSpan (OpenSpan # ts) = spanState True ts"
| "spanState inSpan (CloseSpan # ts) = spanState False ts"
| "spanState inSpan (OpenDiv # ts) = spanState inSpan ts"
| "spanState inSpan (CloseDiv # ts) = spanState inSpan ts"
| "spanState inSpan (Chr c # ts) = spanState inSpan ts"

text \<open>
  A text of two lines whose second line holds a span, a space and a title with markup
  inside, and a text with two html elements.
\<close>

definition titleAfterSpanDocument :: string where
  "titleAfterSpanDocument =
     ''<div>a</div>'' @ newline # ''<span>some text</span> <title><b>x</b></title>''"


section \<open>Evaluating the character tests\<close>

lemma isLowerAZ_code [code]:
  "isLowerAZ (Char b0 b1 b2 b3 b4 b5 b6 b7) =
     (\<not> b7 \<and> b6 \<and> b5 \<and> low5_letter b0 b1 b2 b3 b4)"
  by (cases b0; cases b1; cases b2; cases b3; cases b4; cases b5; cases b6; cases b7;
      simp add: isLowerAZ_def low5_letter_def)

lemma isUpperAZ_code [code]:
  "isUpperAZ (Char b0 b1 b2 b3 b4 b5 b6 b7) =
     (\<not> b7 \<and> b6 \<and> \<not> b5 \<and> low5_letter b0 b1 b2 b3 b4)"
  by (cases b0; cases b1; cases b2; cases b3; cases b4; cases b5; cases b6; cases b7;
      simp add: isUpperAZ_def low5_letter_def)

lemma isDigit_code [code]:
  "isDigit (Char b0 b1 b2 b3 b4 b5 b6 b7) =
     (\<not> b7 \<and> \<not> b6 \<and> b5 \<and> b4 \<and> (\<not> b3 \<or> (\<not> b2 \<and> \<not> b1)))"
  by (cases b0; cases b1; cases b2; cases b3; cases b4; cases b5; cases b6; cases b7;
      simp add: isDigit_def)

lemma canonicalize_code [code]:
  "canonicalize (Char b0 b1 b2 b3 b4 b5 b6 b7) =
     (if b6 \<and> b5 \<and>
         ((\<not> b7 \<and> low5_letter b0 b1 b2 b3 b4) \<or> (b7 \<and> low5_latin b0 b1 b2 b3 b4))
      then Char b0 b1 b2 b3 b4 False b6 b7
      else Char b0 b1 b2 b3 b4 b5 b6 b7)"
  by (cases b0; cases b1; cases b2; cases b3; cases b4; cases b5; cases b6; cases b7;
      simp add: canonicalize_def low5_letter_def low5_latin_def char_of_def bit_Suc_0_iff)

lemma lowerChar_code [code]:
  "lowerChar (Char b0 b1 b2 b3 b4 b5 b6 b7) =
     (if b6 \<and> \<not> b5 \<and>
         ((\<not> b7 \<and> low5_letter b0 b1 b2 b3 b4) \<or> (b7 \<and> low5_latin b0 b1 b2 b3 b4))
      then Char b0 b1 b2 b3 b4 True b6 b7
      else Char b0 b1 b2 b3 b4 b5 b6 b7)"
  by (cases b0; cases b1; cases b2; cases b3; cases b4; cases b5; cases b6; cases b7;
      simp add: lowerChar_def low5_letter_def low5_latin_def char_of_def bit_Suc_0_iff)

section \<open>The validators only push\<close>

lemma foldl_pushes:
  assumes "\<And>d x. x \<in> set xs \<Longrightarrow> f d x = d @ g x"
  shows "foldl f d xs = d @ concat (map g xs)"
  using assms by (induction xs arbitrary: d) simp_all

lemma headStep_append: "headStep ft ds e = ds @ headStep ft [] e"
  by (simp add: headStep_def Let_def split: option.splits)

lemma bodyStep_append: "bodyStep ft ds e = ds @ bodyStep ft [] e"
  by (simp add: bodyStep_def Let_def split: option.splits)

lemma titleStep_append: "titleStep ft ds e = ds @ titleStep ft [] e"
  by (simp add: titleStep_def split: option.splits)

lemma spanStep_append: "spanStep ft ds e = ds @ spanStep ft [] e"
  by (simp add: spanStep_def split: option.splits)

lemma validateHeadContent_pushes:
  "validateHeadContent hc ft ds = ds @ concat (map (headStep ft []) (matches elementRegex hc))"
  unfolding validateHeadContent_def matches_def
  by (cases "match_global elementRegex hc")
     (simp_all add: foldl_pushes [where g = "headStep ft []", OF headStep_append])

lemma bodyElements_pushes:
  "bodyElements bc ft ds = ds @ concat (map (bodyStep ft []) (matches elementRegex bc))"
  unfolding bodyElements_def matches_def
  by (cases "match_global elementRegex bc")
     (simp_all add: foldl_pushes [where g = "bodyStep ft []", OF bodyStep_append])

lemma titleRule_pushes:
  "titleRule c ft ds = ds @ concat (map (titleStep ft []) (matches (pairRegexG ''title'') c))"
  unfolding titleRule_def matches_def
  by (cases "match_global (pairRegexG ''title'') c")
     (simp_all add: foldl_pushes [where g = "titleStep ft []", OF titleStep_append])

lemma spanRule_pushes:
  "spanRule c ft ds = ds @ concat (map (spanStep ft []) (matches (pairRegex ''span'') c))"
  unfolding spanRule_def matches_def
  by (cases "match_global (pairRegex ''span'') c")
     (simp_all add: foldl_pushes [where g = "spanStep ft []", OF spanStep_append])

lemma validateNesting_append_aux:
  fixes ds :: "Diagnostic list" and ctx :: "string list"
  shows "\<forall>d1 ctx1 ctx2. validateNesting c ft d1 ctx1 = d1 @ validateNesting c ft [] ctx2"
proof (induction c ft ds ctx rule: validateNesting.induct)
  case (1 content fullText diagnostics ctx)
  have divs: "\<And>ctx' d x. x \<in> set (matches (pairRegexG ''div'') content) \<Longrightarrow>
      (case match_first (pairRegexG ''div'') x of None \<Rightarrow> d
       | Some innerContent \<Rightarrow> validateNesting (group1 innerContent) fullText d ctx')
      = d @ descend ''div'' fullText x"
    using "1.IH"(1) unfolding matches_def descend_def
    by (auto split: option.splits)
  have spans: "\<And>ctx' d x. x \<in> set (matches (pairRegexG ''span'') content) \<Longrightarrow>
      (case match_first (pairRegexG ''span'') x of None \<Rightarrow> d
       | Some innerContent \<Rightarrow> validateNesting (group1 innerContent) fullText d ctx')
      = d @ descend ''span'' fullText x"
    using "1.IH"(2) unfolding matches_def descend_def
    by (auto split: option.splits)
  have f1: "foldl (\<lambda>d divMatch. case match_first (pairRegexG ''div'') divMatch of None \<Rightarrow> d
       | Some innerContent \<Rightarrow> validateNesting (group1 innerContent) fullText d ctx')
      d0 (matches (pairRegexG ''div'') content)
      = d0 @ concat (map (descend ''div'' fullText) (matches (pairRegexG ''div'') content))"
    for d0 ctx'
    by (rule foldl_pushes) (rule divs)
  have f2: "foldl (\<lambda>d spanMatch. case match_first (pairRegexG ''span'') spanMatch of None \<Rightarrow> d
       | Some innerContent \<Rightarrow> validateNesting (group1 innerContent) fullText d ctx')
      d0 (matches (pairRegexG ''span'') content)
      = d0 @ concat (map (descend ''span'' fullText) (matches (pairRegexG ''span'') content))"
    for d0 ctx'
    by (rule foldl_pushes) (rule spans)
  have eq: "validateNesting content fullText d1 ctx1 =
      spanRule content fullText (titleRule content fullText d1) @
      concat (map (descend ''div'' fullText) (matches (pairRegexG ''div'') content)) @
      concat (map (descend ''span'' fullText) (matches (pairRegexG ''span'') content))" for d1 ctx1
    unfolding validateNesting.simps [of content fullText d1 ctx1] matches_def [symmetric] f1 f2
    by simp
  have "validateNesting content fullText d1 ctx1 = d1 @ validateNesting content fullText [] ctx2"
    for d1 ctx1 ctx2
    unfolding eq
    by (subst (1 2) spanRule_pushes, subst (1 2) titleRule_pushes) simp
  then show ?case by blast
qed


lemma validateNesting_pushes:
  "validateNesting c ft ds ctx = ds @ nestingDiagnostics c ft"
  using validateNesting_append_aux [of c ft] unfolding nestingDiagnostics_def by blast

lemma descend_eq:
  "descend name ft m =
     (case match_first (pairRegexG name) m of
        None \<Rightarrow> []
      | Some innerContent \<Rightarrow> nestingDiagnostics (group1 innerContent) ft)"
  by (simp add: descend_def nestingDiagnostics_def split: option.splits)

lemma nestingDiagnostics_unfold:
  "nestingDiagnostics c ft =
     concat (map (titleStep ft []) (matches (pairRegexG ''title'') c)) @
     concat (map (spanStep ft []) (matches (pairRegex ''span'') c)) @
     concat (map (descend ''div'' ft) (matches (pairRegexG ''div'') c)) @
     concat (map (descend ''span'' ft) (matches (pairRegexG ''span'') c))"
proof -
  have d: "(case match_first (pairRegexG name) x of None \<Rightarrow> d
       | Some innerContent \<Rightarrow> validateNesting (group1 innerContent) ft d ctx')
      = d @ descend name ft x" for name d x ctx'
    by (cases "match_first (pairRegexG name) x")
       (simp_all add: descend_eq validateNesting_pushes)
  show ?thesis
    unfolding nestingDiagnostics_def validateNesting.simps [of c ft "[]" "[]"]
      matches_def [symmetric] d
    by (simp add: foldl_pushes [where g = "descend ''div'' ft"]
        foldl_pushes [where g = "descend ''span'' ft"] spanRule_pushes titleRule_pushes)
qed

lemma validateBodyContent_pushes:
  "validateBodyContent bc ft ds =
     ds @ concat (map (bodyStep ft []) (matches elementRegex bc)) @ nestingDiagnostics bc ft"
  by (simp add: validateBodyContent_def validateNesting_pushes bodyElements_pushes)

lemma htmlStep_pushes: "htmlStep t m ds = ds @ stepDiagnostics t m"
  unfolding htmlStep_def stepDiagnostics_def Let_def
  by (simp add: validateBodyContent_pushes validateHeadContent_pushes split: option.splits)

lemma htmlLoop_pushes_aux:
  fixes ds0 :: "Diagnostic list"
  shows "\<forall>ds. htmlLoop t lastIndex ds = ds @ htmlLoop t lastIndex []"
proof (induction t lastIndex ds0 rule: htmlLoop.induct)
  case (1 t lastIndex ds0)
  show ?case
  proof (cases "regex_exec htmlRegex t lastIndex")
    case None
    then show ?thesis by (simp add: htmlLoop.simps [of t lastIndex])
  next
    case (Some m)
    from "1.IH" [OF Some]
    have ih: "htmlLoop t (index m + length (matched m)) ds =
        ds @ htmlLoop t (index m + length (matched m)) []" for ds
      by blast
    have "htmlLoop t lastIndex ds = ds @ htmlLoop t lastIndex []" for ds
      unfolding htmlLoop.simps [of t lastIndex] Some
      by (simp add: ih [of "ds @ stepDiagnostics t m"] ih [of "stepDiagnostics t m"]
          htmlStep_pushes [of t m ds] htmlStep_pushes [of t m "[]"])
    then show ?thesis by blast
  qed
qed

lemma htmlLoop_pushes: "htmlLoop t lastIndex ds = ds @ loopDiagnostics t lastIndex"
  using htmlLoop_pushes_aux [of t lastIndex] unfolding loopDiagnostics_def by blast

lemma loopDiagnostics_unfold:
  "loopDiagnostics t i =
     (case regex_exec htmlRegex t i of
        None \<Rightarrow> []
      | Some m \<Rightarrow> stepDiagnostics t m @ loopDiagnostics t (index m + length (matched m)))"
proof (cases "regex_exec htmlRegex t i")
  case None
  then show ?thesis by (simp add: loopDiagnostics_def htmlLoop.simps [of t i])
next
  case (Some m)
  have "loopDiagnostics t i = htmlLoop t (index m + length (matched m)) (htmlStep t m [])"
    by (simp add: loopDiagnostics_def htmlLoop.simps [of t i] Some)
  also have "\<dots> = stepDiagnostics t m @ loopDiagnostics t (index m + length (matched m))"
    by (simp add: htmlLoop_pushes stepDiagnostics_def)
  finally show ?thesis by (simp add: Some)
qed

lemma validate_pushes: "validate t = rule1 t [] @ loopDiagnostics t 0"
  by (simp add: validate_def htmlLoop_pushes)

section \<open>What the validators push\<close>

lemma headStep_eq:
  "headStep ft [] e = (if headDisallowed e then [headDiagnostic ft e] else [])"
  by (simp add: headStep_def headDisallowed_def headDiagnostic_def Let_def split: option.splits)

lemma bodyStep_eq:
  "bodyStep ft [] e = (if bodyDisallowed e then [bodyDiagnostic ft e] else [])"
  by (simp add: bodyStep_def bodyDisallowed_def bodyDiagnostic_def Let_def split: option.splits)

lemma concat_map_if:
  "concat (map (\<lambda>x. if P x then [f x] else []) xs) = map f (filter P xs)"
  by (induction xs) simp_all

lemma validateHeadContent_flagged:
  "validateHeadContent hc ft ds =
     ds @ map (headDiagnostic ft) (filter headDisallowed (matches elementRegex hc))"
  by (simp add: validateHeadContent_pushes headStep_eq [abs_def] concat_map_if)

lemma bodyElements_flagged:
  "bodyElements bc ft ds =
     ds @ map (bodyDiagnostic ft) (filter bodyDisallowed (matches elementRegex bc))"
  by (simp add: bodyElements_pushes bodyStep_eq [abs_def] concat_map_if)

lemma matches_length:
  "m \<in> set (matches ps s) \<Longrightarrow> length m \<le> length s"
  unfolding matches_def
  by (cases "match_global ps s") (auto dest: match_global_length)

lemma nesting_induct [case_names fragment]:
  assumes step: "\<And>c. (\<And>name m ic. m \<in> set (matches (pairRegexG name) c) \<Longrightarrow>
                        match_first (pairRegexG name) m = Some ic \<Longrightarrow> P (group1 ic)) \<Longrightarrow> P c"
  shows "P c"
proof (induction c rule: measure_induct_rule [where f = length])
  case (less c)
  show ?case
  proof (rule step)
    fix name m ic
    assume m: "m \<in> set (matches (pairRegexG name) c)"
      and ic: "match_first (pairRegexG name) m = Some ic"
    from m have "length m \<le> length c" by (rule matches_length)
    with group1_shorter [OF ic] have "length (group1 ic) < length c" by simp
    then show "P (group1 ic)" by (rule less.IH)
  qed
qed

lemma titleStep_message: "d \<in> set (titleStep ft [] m) \<Longrightarrow> message d = ''<title> can contain only text''"
  by (auto simp: titleStep_def lineDiagnostic_def split: option.splits if_splits)

lemma spanStep_message: "d \<in> set (spanStep ft [] m) \<Longrightarrow> message d = ''<span> cannot contain <div> elements''"
  by (auto simp: spanStep_def lineDiagnostic_def split: option.splits if_splits)

lemma descend_mem:
  assumes "d \<in> set (descend name ft m)"
  obtains ic where "match_first (pairRegexG name) m = Some ic"
    and "d \<in> set (nestingDiagnostics (group1 ic) ft)"
  using assms by (cases "match_first (pairRegexG name) m") (auto simp: descend_eq)

lemma nestingDiagnostics_mem:
  assumes "d \<in> set (nestingDiagnostics c ft)"
  obtains (title) m where "m \<in> set (matches (pairRegexG ''title'') c)" "d \<in> set (titleStep ft [] m)"
  | (span) m where "m \<in> set (matches (pairRegex ''span'') c)" "d \<in> set (spanStep ft [] m)"
  | (descend) name m ic where "name = ''div'' \<or> name = ''span''"
      "m \<in> set (matches (pairRegexG name) c)"
      "match_first (pairRegexG name) m = Some ic" "d \<in> set (nestingDiagnostics (group1 ic) ft)"
proof -
  from assms consider
    "\<exists>m \<in> set (matches (pairRegexG ''title'') c). d \<in> set (titleStep ft [] m)"
    | "\<exists>m \<in> set (matches (pairRegex ''span'') c). d \<in> set (spanStep ft [] m)"
    | "\<exists>m \<in> set (matches (pairRegexG ''div'') c). d \<in> set (descend ''div'' ft m)"
    | "\<exists>m \<in> set (matches (pairRegexG ''span'') c). d \<in> set (descend ''span'' ft m)"
    unfolding nestingDiagnostics_unfold [of c ft] by auto
  then show thesis
  proof cases
    case 1
    then show ?thesis using title by blast
  next
    case 2
    then show ?thesis using span by blast
  next
    case 3
    then obtain m where m: "m \<in> set (matches (pairRegexG ''div'') c)"
      and d: "d \<in> set (descend ''div'' ft m)" by blast
    from d show ?thesis by (rule descend_mem) (use m descend in blast)
  next
    case 4
    then obtain m where m: "m \<in> set (matches (pairRegexG ''span'') c)"
      and d: "d \<in> set (descend ''span'' ft m)" by blast
    from d show ?thesis by (rule descend_mem) (use m descend in blast)
  qed
qed

lemma nesting_messages:
  "d \<in> set (nestingDiagnostics c ft) \<Longrightarrow> message d \<in> nestingMessages"
proof (induction c rule: nesting_induct)
  case (fragment c)
  from fragment.prems show ?case
  proof (cases rule: nestingDiagnostics_mem)
    case (title m)
    then show ?thesis by (auto simp: nestingMessages_def dest: titleStep_message)
  next
    case (span m)
    then show ?thesis by (auto simp: nestingMessages_def dest: spanStep_message)
  next
    case (descend name m ic)
    from descend(2,3,4) show ?thesis by (rule fragment.IH)
  qed
qed

lemma validateHeadContent_append:
  "validateHeadContent hc ft ds = ds @ validateHeadContent hc ft []"
  by (simp add: validateHeadContent_pushes)

lemma validateBodyContent_append:
  "validateBodyContent bc ft ds = ds @ validateBodyContent bc ft []"
  by (simp add: validateBodyContent_pushes)

lemma stepDiagnostics_eq:
  "stepDiagnostics text m =
     headCardinality text m @ bodyCardinality text m @ contentDiagnostics text m"
  by (cases "match_global (pairRegex ''head'') (group1 m)";
      cases "match_global (pairRegex ''body'') (group1 m)")
     (simp_all add: stepDiagnostics_def htmlStep_def Let_def matches_def
        headCardinality_def bodyCardinality_def contentDiagnostics_def
        cardinalityDiagnostic_def str_includes_def
        validateHeadContent_append [of _ _ "_ @ _"] validateHeadContent_append [of _ _ "[_]"]
        validateBodyContent_append [of _ _ "_ @ _"] validateBodyContent_append [of _ _ "[_]"]
        validateHeadContent_append [of _ _ "_ # _"] validateBodyContent_append [of _ _ "_ # _"]
        validateBodyContent_append [of _ _ "validateHeadContent _ _ _"])

lemma content_messages:
  assumes "d \<in> set (contentDiagnostics text m)"
  shows "message d \<in> {''<head> may contain only <title> or <meta> elements'',
           ''<body> may contain only <div> or <span> elements''} \<union> nestingMessages"
proof -
  have "message d = ''<head> may contain only <title> or <meta> elements''"
    if "d \<in> set (validateHeadContent hc text [])" for hc
    using that by (auto simp: validateHeadContent_flagged headDiagnostic_def lineDiagnostic_def)
  moreover have "message d = ''<body> may contain only <div> or <span> elements'' \<or>
      message d \<in> nestingMessages"
    if "d \<in> set (validateBodyContent bc text [])" for bc
    using that
    by (auto simp: validateBodyContent_pushes bodyStep_eq bodyDiagnostic_def lineDiagnostic_def
        dest: nesting_messages split: if_splits)
  ultimately show ?thesis
    using assms unfolding contentDiagnostics_def by (auto split: if_splits)
qed

lemma filter_none: "(\<And>x. x \<in> set xs \<Longrightarrow> \<not> P x) \<Longrightarrow> filter P xs = []"
  by (induction xs) auto

lemma titleStep_eq:
  "titleStep ft [] t = (if titleViolation t then [titleDiagnostic ft t] else [])"
  by (simp add: titleStep_def titleViolation_def titleDiagnostic_def split: option.splits)

lemma spanStep_eq:
  "spanStep ft [] s = (if spanViolation s then [spanDiagnostic ft s] else [])"
  by (simp add: spanStep_def spanViolation_def spanDiagnostic_def split: option.splits)

lemma titleRule_flagged:
  "titleRule c ft ds =
     ds @ map (titleDiagnostic ft) (filter titleViolation (matches (pairRegexG ''title'') c))"
  by (simp add: titleRule_pushes titleStep_eq [abs_def] concat_map_if)

lemma spanRule_flagged:
  "spanRule c ft ds =
     ds @ map (spanDiagnostic ft) (filter spanViolation (matches (pairRegex ''span'') c))"
  by (simp add: spanRule_pushes spanStep_eq [abs_def] concat_map_if)

lemma descend_subset:
  assumes "name = ''div'' \<or> name = ''span''"
    and "m \<in> set (matches (pairRegexG name) c)"
    and "match_first (pairRegexG name) m = Some ic"
  shows "set (nestingDiagnostics (group1 ic) ft) \<subseteq> set (nestingDiagnostics c ft)"
proof -
  from assms(3) have "descend name ft m = nestingDiagnostics (group1 ic) ft"
    by (simp add: descend_eq)
  with assms(1,2) show ?thesis
    unfolding nestingDiagnostics_unfold [of c ft] by auto
qed

lemma processed_subset:
  "processed root c \<Longrightarrow> set (nestingDiagnostics c ft) \<subseteq> set (nestingDiagnostics root ft)"
proof (induction rule: processed.induct)
  case root
  show ?case by simp
next
  case (inner c name m ic)
  from descend_subset [OF inner.hyps(2,3,4)] inner.IH show ?case by blast
qed

lemma processed_trans:
  "processed c c' \<Longrightarrow> processed root c \<Longrightarrow> processed root c'"
proof (induction rule: processed.induct)
  case root
  then show ?case .
next
  case (inner c1 name m ic)
  from inner.IH [OF inner.prems] inner.hyps(2,3,4) show ?case
    by (rule processed.inner)
qed

lemma title_diagnostic_origin:
  assumes "d \<in> set (nestingDiagnostics root ft)"
    and "message d = ''<title> can contain only text''"
  shows "\<exists>c t. processed root c \<and> t \<in> set (matches (pairRegexG ''title'') c) \<and>
           titleViolation t \<and> d = titleDiagnostic ft t"
  using assms
proof (induction root rule: nesting_induct)
  case (fragment r)
  from fragment.prems(1) show ?case
  proof (cases rule: nestingDiagnostics_mem)
    case (title m)
    then have "titleViolation m \<and> d = titleDiagnostic ft m"
      by (auto simp: titleStep_eq split: if_splits)
    with title(1) processed.root [of r] show ?thesis by blast
  next
    case (span m)
    with fragment.prems(2) show ?thesis
      by (auto dest: spanStep_message)
  next
    case (descend name m ic)
    from fragment.IH [OF descend(2,3,4) fragment.prems(2)]
    obtain c t where c: "processed (group1 ic) c"
      and t: "t \<in> set (matches (pairRegexG ''title'') c)" "titleViolation t"
        "d = titleDiagnostic ft t" by blast
    have "processed r (group1 ic)"
      by (rule processed.inner [OF processed.root descend(1,2,3)])
    with c have "processed r c" by (rule processed_trans)
    with t show ?thesis by blast
  qed
qed

lemma span_diagnostic_origin:
  assumes "d \<in> set (nestingDiagnostics root ft)"
    and "message d = ''<span> cannot contain <div> elements''"
  shows "\<exists>c s. processed root c \<and> s \<in> set (matches (pairRegex ''span'') c) \<and>
           spanViolation s \<and> d = spanDiagnostic ft s"
  using assms
proof (induction root rule: nesting_induct)
  case (fragment r)
  from fragment.prems(1) show ?case
  proof (cases rule: nestingDiagnostics_mem)
    case (title m)
    with fragment.prems(2) show ?thesis
      by (auto dest: titleStep_message)
  next
    case (span m)
    then have "spanViolation m \<and> d = spanDiagnostic ft m"
      by (auto simp: spanStep_eq split: if_splits)
    with span(1) processed.root [of r] show ?thesis by blast
  next
    case (descend name m ic)
    from fragment.IH [OF descend(2,3,4) fragment.prems(2)]
    obtain c s where c: "processed (group1 ic) c"
      and s: "s \<in> set (matches (pairRegex ''span'') c)" "spanViolation s"
        "d = spanDiagnostic ft s" by blast
    have "processed r (group1 ic)"
      by (rule processed.inner [OF processed.root descend(1,2,3)])
    with c have "processed r c" by (rule processed_trans)
    with s show ?thesis by blast
  qed
qed

section \<open>The expressions on a text of tokens\<close>

lemma renderTokens_simps [simp]:
  "renderTokens [] = []"
  "renderTokens (t # ts) = renderToken t @ renderTokens ts"
  "renderTokens (ts @ us) = renderTokens ts @ renderTokens us"
  by (simp_all add: renderTokens_def)

lemma plainText_simps [simp]:
  "plainText []"
  "plainText (t # ts) = (t \<noteq> Chr CHR ''<'' \<and> plainText ts)"
  "plainText (ts @ us) = (plainText ts \<and> plainText us)"
  by (auto simp: plainText_def)

lemma canonicalize_lt [simp]: "canonicalize c = CHR ''<'' \<longleftrightarrow> c = CHR ''<''"
  by (cases c) (auto simp: canonicalize_code low5_letter_def low5_latin_def)

lemmas char_eval = canonicalize_code low5_letter_def low5_latin_def isWhiteSpace_def

lemma closeTag_mid:
  "c \<noteq> CHR ''<'' \<Longrightarrow> rmatch (closeTag name) (c # s) n g = None"
  by (simp add: closeTag_def char_eval)

lemma closeTag_empty: "rmatch (closeTag name) [] n g = None"
  by (simp add: closeTag_def)

lemma lazy_scan:
  assumes start: "\<And>t s n g. t \<noteq> Chr CHR ''<'' \<Longrightarrow>
      rmatch ps (renderToken t @ s) n g = (if t = C then Some (res n g) else None)"
    and mid: "\<And>c s n g. c \<noteq> CHR ''<'' \<Longrightarrow> rmatch ps (c # s) n g = None"
    and empty: "\<And>n g. rmatch ps [] n g = None"
    and tag: "\<And>c. C \<noteq> Chr c"
  shows "plainText ts \<Longrightarrow>
    rmatch (LazyStar AnyChar # ps) (renderTokens ts) n g =
      (if C \<in> set ts
       then Some (res (n + length (renderTokens (takeWhile (\<lambda>t. t \<noteq> C) ts))) g)
       else None)"
proof (induction ts arbitrary: n)
  case Nil
  then show ?case by (simp add: empty)
next
  case (Cons t ts)
  from Cons.prems have pt: "plainText ts" and t: "t \<noteq> Chr CHR ''<''" by simp_all
  note ih = Cons.IH [OF pt]
  show ?case
  proof (cases t)
    case OpenDiv
    with start [of OpenDiv "renderTokens ts" n g] show ?thesis
      by (simp add: mid ih)
  next
    case CloseDiv
    with start [of CloseDiv "renderTokens ts" n g] show ?thesis
      by (simp add: mid ih)
  next
    case OpenSpan
    with start [of OpenSpan "renderTokens ts" n g] show ?thesis
      by (simp add: mid ih)
  next
    case CloseSpan
    with start [of CloseSpan "renderTokens ts" n g] show ?thesis
      by (simp add: mid ih)
  next
    case (Chr c)
    with t start [of "Chr c" "renderTokens ts" n g] tag [of c] show ?thesis
      by (simp add: mid ih)
  qed
qed


lemma tagged_tokens:
  assumes "tagged name opening closing"
  shows "renderToken opening = CHR ''<'' # name @ ''>''"
    and "renderToken closing = CHR ''<'' # CHR ''/'' # name @ ''>''"
    and "\<And>c. closing \<noteq> Chr c" and "\<And>c. opening \<noteq> Chr c"
  using assms by (auto simp: tagged_def)

lemma closeTag_at:
  assumes "tagged name opening closing" and "t \<noteq> Chr CHR ''<''"
  shows "rmatch (closeTag name) (renderToken t @ s) n g =
     (if t = closing then Some (n + (length name + 3), g) else None)"
  using assms unfolding tagged_def
  by (cases t) (auto simp: closeTag_def lits_def char_eval)

lemma lazy_close:
  assumes "tagged name opening closing" and "plainText ts"
  shows "rmatch (LazyStar AnyChar # closeTag name) (renderTokens ts) n g =
     (if closing \<in> set ts
      then Some (n + length (renderTokens (takeWhile (\<lambda>t. t \<noteq> closing) ts)) + (length name + 3), g)
      else None)"
  using lazy_scan [where ps = "closeTag name" and C = closing
      and res = "\<lambda>n g. (n + (length name + 3), g)", OF closeTag_at [OF assms(1)]
      closeTag_mid closeTag_empty tagged_tokens(3) [OF assms(1)] assms(2)]
  by simp

lemma lazy_group_close:
  assumes "tagged name opening closing" and "plainText ts"
  shows "rmatch (LazyStar AnyChar # GroupClose # closeTag name) (renderTokens ts) n g =
     (if closing \<in> set ts
      then Some (n + length (renderTokens (takeWhile (\<lambda>t. t \<noteq> closing) ts)) + (length name + 3),
                 fst g, n + length (renderTokens (takeWhile (\<lambda>t. t \<noteq> closing) ts)))
      else None)"
proof -
  have "rmatch (LazyStar AnyChar # GroupClose # closeTag name) (renderTokens ts) n g =
     (if closing \<in> set ts
      then Some ((\<lambda>n g. (n + (length name + 3), fst g, n))
                  (n + length (renderTokens (takeWhile (\<lambda>t. t \<noteq> closing) ts))) g)
      else None)"
    by (rule lazy_scan [OF _ _ _ tagged_tokens(3) [OF assms(1)] assms(2)])
       (simp_all add: closeTag_at [OF assms(1)] closeTag_mid closeTag_empty)
  then show ?thesis by simp
qed

lemma pairG_at:
  assumes "tagged name opening closing" and "plainText ts" and "t \<noteq> Chr CHR ''<''"
  shows "rmatch (pairRegexG name) (renderToken t @ renderTokens ts) 0 (0, 0) =
     (if t = opening \<and> closing \<in> set ts
      then Some (length name + 2 + length (renderTokens (takeWhile (\<lambda>t. t \<noteq> closing) ts)) +
                   (length name + 3),
                 length name + 2,
                 length name + 2 + length (renderTokens (takeWhile (\<lambda>t. t \<noteq> closing) ts)))
      else None)"
  using assms(1,3) lazy_group_close [OF assms(1,2)] unfolding tagged_def
  by (cases t) (auto simp: pairRegexG_def openTag_def lits_def char_eval)

lemma pair_at:
  assumes "tagged name opening closing" and "plainText ts" and "t \<noteq> Chr CHR ''<''"
  shows "rmatch (pairRegex name) (renderToken t @ renderTokens ts) 0 (0, 0) =
     (if t = opening \<and> closing \<in> set ts
      then Some (length name + 2 + length (renderTokens (takeWhile (\<lambda>t. t \<noteq> closing) ts)) +
                   (length name + 3), 0, 0)
      else None)"
  using assms(1,3) lazy_close [OF assms(1,2)] unfolding tagged_def
  by (cases t) (auto simp: pairRegex_def openTag_def lits_def char_eval)

lemma title_at:
  "t \<noteq> Chr CHR ''<'' \<Longrightarrow> rmatch (pairRegexG ''title'') (renderToken t @ s) 0 (0, 0) = None"
  by (cases t) (auto simp: pairRegexG_def openTag_def lits_def char_eval)

lemma openDiv_at:
  "t \<noteq> Chr CHR ''<'' \<Longrightarrow> t \<noteq> OpenDiv \<Longrightarrow>
   rmatch (openTag ''div'') (renderToken t @ s) 0 (0, 0) = None"
  by (cases t) (auto simp: openTag_def lits_def char_eval)


lemma renderToken_tail: "CHR ''<'' \<notin> set (tl (renderToken t))"
  by (cases t) simp_all

lemma renderToken_nonempty: "renderToken t \<noteq> []"
  by (cases t) simp_all

lemma drop_inside:
  assumes "0 < j" and "j < length xs"
  obtains c cs where "drop j xs = c # cs" and "c \<in> set (tl xs)"
proof -
  from assms have "drop j xs = xs ! j # drop (Suc j) xs"
    by (simp add: Cons_nth_drop_Suc)
  moreover from assms have "xs ! j \<in> set (tl xs)"
    by (cases xs) (auto simp: nth_Cons')
  ultimately show ?thesis by (rule that)
qed

text \<open>A match of an expression that starts with \<open><\<close> starts at the start of a token.\<close>

lemma match_at_token:
  assumes mid: "\<And>c s. c \<noteq> CHR ''<'' \<Longrightarrow> rmatch ps (c # s) 0 (0, 0) = None"
    and empty: "rmatch ps [] 0 (0, 0) = None"
  shows "rmatch ps (drop j (renderTokens ts)) 0 (0, 0) = Some r \<Longrightarrow>
     \<exists>pre t post. ts = pre @ t # post \<and>
        drop j (renderTokens ts) = renderToken t @ renderTokens post"
proof (induction ts arbitrary: j)
  case Nil
  then show ?case by (simp add: empty)
next
  case (Cons t ts)
  consider "j = 0" | "0 < j" "j < length (renderToken t)" | "length (renderToken t) \<le> j"
    by linarith
  then show ?case
  proof cases
    case 1
    then have "t # ts = [] @ t # ts \<and>
        drop j (renderTokens (t # ts)) = renderToken t @ renderTokens ts" by simp
    then show ?thesis by blast
  next
    case 2
    then obtain c cs where d: "drop j (renderToken t) = c # cs" and c: "c \<in> set (tl (renderToken t))"
      by (rule drop_inside)
    from c renderToken_tail [of t] have "c \<noteq> CHR ''<''" by auto
    with Cons.prems 2 d show ?thesis by (simp add: mid)
  next
    case 3
    with Cons.prems
    have "rmatch ps (drop (j - length (renderToken t)) (renderTokens ts)) 0 (0, 0) = Some r"
      by simp
    from Cons.IH [OF this] obtain pre u post where "ts = pre @ u # post"
      and "drop (j - length (renderToken t)) (renderTokens ts) = renderToken u @ renderTokens post"
      by blast
    with 3 have "t # ts = (t # pre) @ u # post \<and>
        drop j (renderTokens (t # ts)) = renderToken u @ renderTokens post" by simp
    then show ?thesis by blast
  qed
qed

lemma search_none:
  assumes "\<And>j. rmatch ps (drop j s) 0 (0, 0) = None"
  shows "search ps s i = None"
  using assms
proof (induction s arbitrary: i)
  case Nil
  from Nil [of 0] show ?case by simp
next
  case (Cons x xs)
  from Cons.prems [of 0] have "rmatch ps (x # xs) 0 (0, 0) = None" by simp
  moreover have "search ps xs (Suc i) = None"
  proof (rule Cons.IH)
    fix j
    from Cons.prems [of "Suc j"] show "rmatch ps (drop j xs) 0 (0, 0) = None" by simp
  qed
  ultimately show ?case by simp
qed

lemma matches_none:
  assumes "\<And>j. rmatch ps (drop j s) 0 (0, 0) = None"
  shows "matches ps s = []" and "match_global ps s = None"
proof -
  have "search ps (drop 0 s) 0 = None"
    by (rule search_none) (simp add: assms)
  then have "regex_exec ps s 0 = None" by (simp add: regex_exec_def)
  then have "match_loop ps s 0 = []" by (simp add: match_loop.simps [of ps s 0])
  then show "match_global ps s = None" by (simp add: match_global_def)
  then show "matches ps s = []" by (simp add: matches_def)
qed

lemma match_loop_witness:
  "m \<in> set (match_loop ps s lastIndex) \<Longrightarrow>
     \<exists>j n a b. rmatch ps (drop j s) 0 (0, 0) = Some (n, a, b) \<and> m = take n (drop j s)"
proof (induction ps s lastIndex rule: match_loop.induct)
  case (1 ps s lastIndex)
  show ?case
  proof (cases "regex_exec ps s lastIndex")
    case None
    with "1.prems" show ?thesis by (simp add: match_loop.simps [of ps s lastIndex])
  next
    case (Some r)
    from "1.prems" Some consider "m = matched r"
      | "m \<in> set (match_loop ps s
            (if matched r = [] then Suc (index r) else index r + length (matched r)))"
      by (auto simp: match_loop.simps [of ps s lastIndex])
    then show ?thesis
    proof cases
      case 1
      from Some have "search ps (drop lastIndex s) lastIndex = Some r"
        by (auto simp: regex_exec_def split: if_splits)
      from search_witness [OF this] obtain j q where
        q: "rmatch ps (drop j (drop lastIndex s)) 0 (0, 0) = Some q"
        and r: "r = mkMatch (lastIndex + j) (drop j (drop lastIndex s)) q" by blast
      obtain n a b where "q = (n, a, b)" by (cases q) auto
      with q r 1 have "rmatch ps (drop (j + lastIndex) s) 0 (0, 0) = Some (n, a, b) \<and>
          m = take n (drop (j + lastIndex) s)"
        by (simp add: mkMatch_def)
      then show ?thesis by blast
    next
      case 2
      from "1.IH" [OF Some 2] show ?thesis .
    qed
  qed
qed

lemma matches_witness:
  assumes "m \<in> set (matches ps s)"
  obtains j n a b where "rmatch ps (drop j s) 0 (0, 0) = Some (n, a, b)" and "m = take n (drop j s)"
proof -
  from assms have "m \<in> set (match_loop ps s 0)"
    by (cases "match_global ps s") (auto simp: matches_def dest: match_global_Some)
  from match_loop_witness [OF this] that show thesis by blast
qed

lemma search_hit:
  "rmatch ps s 0 (0, 0) = Some r \<Longrightarrow> search ps s i = Some (mkMatch i s r)"
  by (cases s) simp_all


lemma pair_mid:
  "c \<noteq> CHR ''<'' \<Longrightarrow> rmatch (pairRegexG name) (c # s) 0 (0, 0) = None"
  "c \<noteq> CHR ''<'' \<Longrightarrow> rmatch (pairRegex name) (c # s) 0 (0, 0) = None"
  "c \<noteq> CHR ''<'' \<Longrightarrow> rmatch (openTag name) (c # s) 0 (0, 0) = None"
  "rmatch (pairRegexG name) [] 0 (0, 0) = None"
  "rmatch (pairRegex name) [] 0 (0, 0) = None"
  "rmatch (openTag name) [] 0 (0, 0) = None"
  by (simp_all add: pairRegexG_def pairRegex_def openTag_def char_eval)

lemma takeWhile_closing:
  assumes "closing \<in> set ts"
  obtains rest where "ts = takeWhile (\<lambda>t. t \<noteq> closing) ts @ closing # rest"
proof -
  from assms have "dropWhile (\<lambda>t. t \<noteq> closing) ts \<noteq> []" by auto
  moreover then have "hd (dropWhile (\<lambda>t. t \<noteq> closing) ts) = closing"
    using hd_dropWhile [of "\<lambda>t. t \<noteq> closing" ts] by simp
  ultimately have "dropWhile (\<lambda>t. t \<noteq> closing) ts = closing # tl (dropWhile (\<lambda>t. t \<noteq> closing) ts)"
    by (cases "dropWhile (\<lambda>t. t \<noteq> closing) ts") auto
  then have "ts = takeWhile (\<lambda>t. t \<noteq> closing) ts @ closing # tl (dropWhile (\<lambda>t. t \<noteq> closing) ts)"
    using takeWhile_dropWhile_id [of "\<lambda>t. t \<noteq> closing" ts] by simp
  then show thesis by (rule that)
qed

lemma pair_match_shape:
  assumes tg: "tagged name opening closing" and pt: "plainText ts"
    and ps: "ps = pairRegexG name \<or> ps = pairRegex name"
    and m: "m \<in> set (matches ps (renderTokens ts))"
  obtains pre mid post where "ts = pre @ opening # mid @ closing # post"
    and "closing \<notin> set mid" and "m = renderTokens (opening # mid @ [closing])"
proof -
  from m obtain j n a b where r: "rmatch ps (drop j (renderTokens ts)) 0 (0, 0) = Some (n, a, b)"
    and mt: "m = take n (drop j (renderTokens ts))"
    by (rule matches_witness)
  from ps have "\<exists>pre t post. ts = pre @ t # post \<and>
        drop j (renderTokens ts) = renderToken t @ renderTokens post"
    by (intro match_at_token [OF _ _ r]) (auto simp: pair_mid)
  then obtain pre t post where ts: "ts = pre @ t # post"
    and d: "drop j (renderTokens ts) = renderToken t @ renderTokens post" by blast
  from pt ts have t: "t \<noteq> Chr CHR ''<''" and pp: "plainText post" by simp_all
  let ?mid = "takeWhile (\<lambda>t. t \<noteq> closing) post"
  from r d ps pairG_at [OF tg pp t] pair_at [OF tg pp t]
  have to: "t = opening" and cl: "closing \<in> set post"
    and n: "n = length name + 2 + length (renderTokens ?mid) + (length name + 3)"
    by (auto split: if_splits)
  from cl obtain rest where post: "post = ?mid @ closing # rest" by (rule takeWhile_closing)
  have "renderTokens post = renderTokens ?mid @ renderToken closing @ renderTokens rest"
    by (subst post) simp
  with d to have "drop j (renderTokens ts) =
      renderTokens (opening # ?mid @ [closing]) @ renderTokens rest" by simp
  moreover from n have "n = length (renderTokens (opening # ?mid @ [closing]))"
    by (simp add: tagged_tokens(1,2) [OF tg])
  ultimately have "m = renderTokens (opening # ?mid @ [closing])"
    using mt by simp
  moreover have "closing \<notin> set ?mid" by (auto dest: set_takeWhileD)
  moreover from ts to post have "ts = pre @ opening # ?mid @ closing # rest" by simp
  ultimately show thesis using that by blast
qed

lemma pair_inner:
  assumes tg: "tagged name opening closing" and pt: "plainText mid"
    and cl: "closing \<notin> set mid"
    and ic: "match_first (pairRegexG name) (renderTokens (opening # mid @ [closing])) = Some ic"
  shows "group1 ic = renderTokens mid"
proof -
  define S where "S = renderTokens (opening # mid @ [closing])"
  define r where "r = (length name + 2 + length (renderTokens mid) + (length name + 3),
            length name + 2, length name + 2 + length (renderTokens mid))"
  from cl have tw: "takeWhile (\<lambda>t. t \<noteq> closing) (mid @ [closing]) = mid"
    by (subst takeWhile_append2) auto
  from tg pt have "plainText (mid @ [closing])" "opening \<noteq> Chr CHR ''<''"
    by (auto simp: tagged_def)
  from pairG_at [OF tg this]
  have "rmatch (pairRegexG name) S 0 (0, 0) = Some r"
    by (simp add: tw S_def r_def)
  then have "search (pairRegexG name) S 0 = Some (mkMatch 0 S r)"
    by (rule search_hit)
  moreover from ic [folded S_def] have "search (pairRegexG name) S 0 = Some ic"
    by (simp add: match_first_def regex_exec_def)
  ultimately have "ic = mkMatch 0 S r" by simp
  then show ?thesis
    by (simp add: mkMatch_def r_def S_def tagged_tokens(1,2) [OF tg])
qed


lemma spanGuard_append:
  "spanGuard s (xs @ ys) = (spanGuard s xs \<and> spanGuard (spanState s xs) ys)"
  by (induction s xs rule: spanGuard.induct) auto

lemma spanState_append:
  "spanState s (xs @ ys) = spanState (spanState s xs) ys"
  by (induction s xs rule: spanState.induct) auto

lemma spanGuard_weaken: "spanGuard s ts \<Longrightarrow> spanGuard False ts"
  by (induction s ts rule: spanGuard.induct) auto

lemma spanGuard_segment:
  assumes "spanGuard s (pre @ mid @ post)"
  shows "spanGuard False mid"
proof -
  from assms have "spanGuard (spanState s pre) mid" by (simp add: spanGuard_append)
  then show ?thesis by (rule spanGuard_weaken)
qed

lemma spanGuard_open:
  "spanGuard True (mid @ post) \<Longrightarrow> CloseSpan \<notin> set mid \<Longrightarrow> OpenDiv \<notin> set mid"
proof (induction mid)
  case Nil
  show ?case by simp
next
  case (Cons t mid)
  then show ?case by (cases t) auto
qed

lemma spanGuard_span:
  assumes "spanGuard s (pre @ OpenSpan # mid @ post)" and "CloseSpan \<notin> set mid"
  shows "OpenDiv \<notin> set mid"
proof -
  from assms(1) have "spanGuard True (mid @ post)"
    by (simp add: spanGuard_append)
  from spanGuard_open [OF this assms(2)] show ?thesis .
qed

lemma no_match_in_tokens:
  assumes mid: "\<And>c s. c \<noteq> CHR ''<'' \<Longrightarrow> rmatch ps (c # s) 0 (0, 0) = None"
    and empty: "rmatch ps [] 0 (0, 0) = None"
    and start: "\<And>t s. t \<in> set ts \<Longrightarrow> rmatch ps (renderToken t @ renderTokens s) 0 (0, 0) = None"
  shows "rmatch ps (drop j (renderTokens ts)) 0 (0, 0) = None"
proof (cases "rmatch ps (drop j (renderTokens ts)) 0 (0, 0)")
  case None
  then show ?thesis .
next
  case (Some r)
  from match_at_token [OF mid empty Some] obtain pre t post where "ts = pre @ t # post"
    and "drop j (renderTokens ts) = renderToken t @ renderTokens post" by blast
  with start [of t post] Some show ?thesis by simp
qed

lemma clean_fragment:
  "plainText ts \<Longrightarrow> spanGuard False ts \<Longrightarrow> c = renderTokens ts \<Longrightarrow>
     nestingDiagnostics c ft = []"
proof (induction c arbitrary: ts rule: nesting_induct)
  case (fragment c)
  note pt = fragment.prems(1) and sg = fragment.prems(2) and c = fragment.prems(3)
  have title: "matches (pairRegexG ''title'') c = []"
  proof (rule matches_none)
    fix j
    show "rmatch (pairRegexG ''title'') (drop j c) 0 (0, 0) = None"
      unfolding c
    proof (rule no_match_in_tokens)
      fix t s
      assume "t \<in> set ts"
      with pt have "t \<noteq> Chr CHR ''<''" by (auto simp: plainText_def)
      then show "rmatch (pairRegexG ''title'') (renderToken t @ renderTokens s) 0 (0, 0) = None"
        by (rule title_at)
    qed (simp_all add: pair_mid)
  qed
  have span: "spanStep ft [] m = []" if m: "m \<in> set (matches (pairRegex ''span'') c)" for m
  proof -
    have tg: "tagged ''span'' OpenSpan CloseSpan" by (simp add: tagged_def)
    from m obtain pre mid post where ts: "ts = pre @ OpenSpan # mid @ CloseSpan # post"
      and cl: "CloseSpan \<notin> set mid" and mm: "m = renderTokens (OpenSpan # mid @ [CloseSpan])"
      unfolding c by (rule pair_match_shape [OF tg pt disjI2 [OF refl]])
    from pt ts have pm: "plainText mid" by simp
    from sg ts cl have nd: "OpenDiv \<notin> set mid"
      using spanGuard_span [of False pre mid "CloseSpan # post"] by simp
    have "\<not> spanViolation m"
    proof (cases "match_first (pairRegexG ''span'') m")
      case None
      then show ?thesis by (simp add: spanViolation_def)
    next
      case (Some ic)
      from pair_inner [OF tg pm cl Some [unfolded mm]]
      have g: "group1 ic = renderTokens mid" .
      have "match_global (openTag ''div'') (renderTokens mid) = None"
      proof (rule matches_none)
        fix j
        show "rmatch (openTag ''div'') (drop j (renderTokens mid)) 0 (0, 0) = None"
        proof (rule no_match_in_tokens)
          fix t s
          assume "t \<in> set mid"
          with pm nd have "t \<noteq> Chr CHR ''<''" "t \<noteq> OpenDiv" by (auto simp: plainText_def)
          then show "rmatch (openTag ''div'') (renderToken t @ renderTokens s) 0 (0, 0) = None"
            by (rule openDiv_at)
        qed (simp_all add: pair_mid)
      qed
      with Some g show ?thesis by (simp add: spanViolation_def)
    qed
    then show ?thesis by (simp add: spanStep_eq)
  qed
  have desc: "descend name ft m = []"
    if tg: "tagged name otok ctok" and m: "m \<in> set (matches (pairRegexG name) c)"
    for name otok ctok m
  proof (cases "match_first (pairRegexG name) m")
    case None
    then show ?thesis by (simp add: descend_eq)
  next
    case (Some ic)
    from m obtain pre mid post where ts: "ts = pre @ otok # mid @ ctok # post"
      and cl: "ctok \<notin> set mid" and mm: "m = renderTokens (otok # mid @ [ctok])"
      unfolding c by (rule pair_match_shape [OF tg pt disjI1 [OF refl]])
    from pt ts have pm: "plainText mid" by simp
    from sg ts have gm: "spanGuard False mid"
      using spanGuard_segment [of False "pre @ [otok]" mid "ctok # post"] by simp
    from pair_inner [OF tg pm cl Some [unfolded mm]]
    have g: "group1 ic = renderTokens mid" .
    from fragment.IH [OF m Some pm gm g] Some show ?thesis
      by (simp add: descend_eq)
  qed
  have "tagged ''div'' OpenDiv CloseDiv" "tagged ''span'' OpenSpan CloseSpan"
    by (simp_all add: tagged_def)
  with desc have "\<And>m. m \<in> set (matches (pairRegexG ''div'') c) \<Longrightarrow> descend ''div'' ft m = []"
    "\<And>m. m \<in> set (matches (pairRegexG ''span'') c) \<Longrightarrow> descend ''span'' ft m = []"
    by blast+
  with title span show ?case
    unfolding nestingDiagnostics_unfold [of c ft] by simp
qed


lemma tokens_plain: "valid n \<Longrightarrow> plainText (tokens n)"
  by (induction n) (auto simp: plainText_def)

lemma tokens_nodiv: "valid n \<Longrightarrow> \<not> isDiv n \<Longrightarrow> OpenDiv \<notin> set (tokens n)"
  by (induction n) auto

lemma nodiv_guard: "OpenDiv \<notin> set ts \<Longrightarrow> spanGuard s ts"
  by (induction s ts rule: spanGuard.induct) auto

lemma forest_guard:
  assumes "\<And>n. n \<in> set ns \<Longrightarrow> spanGuard False (tokens n) \<and> \<not> spanState False (tokens n)"
  shows "spanGuard False (concat (map tokens ns)) \<and> \<not> spanState False (concat (map tokens ns))"
  using assms by (induction ns) (auto simp: spanGuard_append spanState_append)

lemma tokens_guard: "valid n \<Longrightarrow> spanGuard False (tokens n) \<and> \<not> spanState False (tokens n)"
proof (induction n)
  case (Text s)
  have "spanGuard b (map Chr s) \<and> spanState b (map Chr s) = b" for b
    by (induction s) auto
  then show ?case by simp
next
  case (Div ns)
  then have "spanGuard False (concat (map tokens ns)) \<and>
      \<not> spanState False (concat (map tokens ns))"
    by (intro forest_guard) auto
  then show ?case by (simp add: spanGuard_append spanState_append)
next
  case (Span ns)
  then have "OpenDiv \<notin> set (concat (map tokens ns) @ [CloseSpan])"
    by (auto dest: tokens_nodiv)
  then have "spanGuard True (concat (map tokens ns) @ [CloseSpan])"
    by (rule nodiv_guard)
  then show ?case by (simp add: spanState_append)
qed

lemma render_forest:
  "concat (map render ns) = renderTokens (concat (map tokens ns))"
  by (induction ns) (simp_all add: render_def)

lemma valid_forest_clean:
  assumes "\<And>n. n \<in> set ns \<Longrightarrow> valid n"
  shows "nestingDiagnostics (concat (map render ns)) ft = []"
proof (rule clean_fragment [OF _ _ render_forest])
  from assms show "plainText (concat (map tokens ns))"
    by (induction ns) (auto dest: tokens_plain)
  from assms show "spanGuard False (concat (map tokens ns))"
    using forest_guard [of ns] tokens_guard by blast
qed

lemma nestedDiv_valid: "valid (nestedDiv k)"
  by (induction k) auto

lemma take_drop_inside: "c = take j c @ take n (drop j c) @ drop n (drop j c)"
  by (simp only: append_take_drop_id)

lemma match_inside_fragment:
  assumes "m \<in> set (matches ps c)"
  shows "\<exists>p q. c = p @ m @ q"
proof -
  from assms obtain j n a b where m: "m = take n (drop j c)" by (rule matches_witness)
  from take_drop_inside [of c j n] show ?thesis unfolding m by blast
qed

lemma group_inside_match:
  assumes "match_first (pairRegexG name) m = Some ic"
  shows "\<exists>p q. m = p @ group1 ic @ q \<and> p \<noteq> []"
proof -
  from assms have "search (pairRegexG name) m 0 = Some ic"
    by (simp add: match_first_def regex_exec_def)
  from search_witness [OF this] obtain j r where
    r: "rmatch (pairRegexG name) (drop j m) 0 (0, 0) = Some r"
    and ic: "ic = mkMatch j (drop j m) r" by auto
  obtain n a b where rr: "r = (n, a, b)" by (cases r) auto
  obtain ps where ps: "pairRegexG name = One (Lit CHR ''<'') # ps" "GroupOpen \<in> set ps"
    by (auto simp: pairRegexG_def openTag_def)
  from r [unfolded ps rr] obtain x xs where xs: "drop j m = x # xs"
    and r': "rmatch ps xs (Suc 0) (0, 0) = Some (n, a, b)"
    by (cases "drop j m") (auto split: if_splits)
  from rmatch_group_open [OF r' ps(2)] have a: "1 \<le> a" by simp
  from ic rr have g: "group1 ic = take (b - a) (drop (a + j) m)"
    by (simp add: mkMatch_def add.commute)
  have "m = take (a + j) m @ group1 ic @ drop (b - a) (drop (a + j) m)"
    unfolding g by (rule take_drop_inside)
  moreover from a xs have "take (a + j) m \<noteq> []" by (cases m) auto
  ultimately show ?thesis by blast
qed

section \<open>Rule 1\<close>

lemma split_lines_nonempty: "split_lines s \<noteq> []"
  by (induction s) (auto split: list.splits)

lemma drop_last_line:
  assumes "xs \<noteq> []"
  shows "drop (nat (int (length xs) - 1)) xs = [last xs]"
proof -
  have "drop (length (butlast xs)) (butlast xs @ [last xs]) = [last xs]" by simp
  moreover have "nat (int (length xs) - 1) = length (butlast xs)" by simp
  ultimately show ?thesis using assms by simp
qed

lemma endDiagnostic_range:
  "drange (endDiagnostic t) =
     \<lparr>range_start = \<lparr>line = int (length (split_lines t)) - 1,
                      character = max 0 (int (length (last (split_lines t))) - 7)\<rparr>,
      range_end = \<lparr>line = int (length (split_lines t)) - 1,
                    character = int (length (last (split_lines t)))\<rparr>\<rparr>"
  by (simp add: endDiagnostic_def Let_def drop_last_line [OF split_lines_nonempty])

section \<open>The line of an offset and the first occurrence\<close>

lemma split_lines_length:
  "length (split_lines s) = Suc (length (filter (\<lambda>c. c = newline) s))"
  using split_lines_nonempty by (induction s) (auto split: list.splits)

lemma lineOf_line_feeds:
  "lineOf ft p = int (length (filter (\<lambda>c. c = newline) (take (nat p) ft)))"
  by (simp add: lineOf_def substring0_def split_lines_length max_def)

lemma startsWith_iff: "startsWith s p \<longleftrightarrow> (\<exists>r. s = p @ r)"
  by (induction s p rule: startsWith.induct) auto

lemma indexOf_from_first:
  "(indexOf_from s p k = -1 \<and> (\<forall>j \<le> length s. \<not> startsWith (drop j s) p)) \<or>
   (\<exists>i \<le> length s. indexOf_from s p k = int (k + i) \<and> startsWith (drop i s) p \<and>
      (\<forall>j < i. \<not> startsWith (drop j s) p))"
proof (induction s arbitrary: k)
  case Nil
  show ?case by (cases p) auto
next
  case (Cons c cs)
  show ?case
  proof (cases "startsWith (c # cs) p")
    case True
    then show ?thesis by (intro disjI2 exI [of _ 0]) simp
  next
    case False
    from Cons.IH [of "Suc k"] show ?thesis
    proof (elim disjE conjE exE)
      assume a: "indexOf_from cs p (Suc k) = -1"
        and n: "\<forall>j \<le> length cs. \<not> startsWith (drop j cs) p"
      have "\<not> startsWith (drop j (c # cs)) p" if "j \<le> length (c # cs)" for j
        using that False n by (cases j) auto
      with a False show ?thesis by simp
    next
      fix i
      assume i: "i \<le> length cs" "indexOf_from cs p (Suc k) = int (Suc k + i)"
        "startsWith (drop i cs) p" "\<forall>j < i. \<not> startsWith (drop j cs) p"
      have "\<not> startsWith (drop j (c # cs)) p" if "j < Suc i" for j
        using that False i(4) by (cases j) auto
      with i False show ?thesis by (intro disjI2 exI [of _ "Suc i"]) simp
    qed
  qed
qed

lemma indexOf_first:
  assumes "indexOf ft t = int i"
  shows "i \<le> length ft \<and> (\<exists>r. drop i ft = t @ r) \<and> (\<forall>j < i. \<nexists>r. drop j ft = t @ r)"
  using indexOf_from_first [of ft t 0] assms
  by (auto simp: indexOf_def startsWith_iff)

lemma indexOf_found:
  assumes "ft = p @ t @ q"
  shows "\<exists>i \<le> length p. indexOf ft t = int i"
proof -
  have here: "startsWith (drop (length p) ft) t"
    by (simp add: assms startsWith_iff)
  have le: "length p \<le> length ft" by (simp add: assms)
  from indexOf_from_first [of ft t 0] show ?thesis
  proof (elim disjE conjE exE)
    assume "\<forall>j \<le> length ft. \<not> startsWith (drop j ft) t"
    with here le show ?thesis by blast
  next
    fix i
    assume i: "indexOf_from ft t 0 = int (0 + i)" "\<forall>j < i. \<not> startsWith (drop j ft) t"
    from i(2) here have "i \<le> length p" by (meson not_le)
    with i(1) show ?thesis by (auto simp: indexOf_def)
  qed
qed

lemma processed_inside: "processed root c \<Longrightarrow> \<exists>p q. root = p @ c @ q"
proof (induction rule: processed.induct)
  case root
  have "root = [] @ root @ []" by simp
  then show ?case by blast
next
  case (inner c name m ic)
  from inner.IH obtain p q where r: "root = p @ c @ q" by blast
  from match_inside_fragment [OF inner.hyps(3)] obtain p1 q1 where c: "c = p1 @ m @ q1"
    by blast
  from group_inside_match [OF inner.hyps(4)] obtain p2 q2 where m: "m = p2 @ group1 ic @ q2"
    by blast
  have "root = (p @ p1 @ p2) @ group1 ic @ (q2 @ q1 @ q)"
    unfolding r c m by simp
  then show ?case by blast
qed

lemma title_match_located:
  assumes "processed root c" "t \<in> set (matches (pairRegexG ''title'') c)"
    and "ft = pre @ root @ post"
  shows "\<exists>i. indexOf ft t = int i"
proof -
  from processed_inside [OF assms(1)] obtain p q where r: "root = p @ c @ q" by blast
  from match_inside_fragment [OF assms(2)] obtain p1 q1 where c: "c = p1 @ t @ q1" by blast
  have "ft = (pre @ p @ p1) @ t @ (q1 @ q @ post)"
    unfolding assms(3) r c by simp
  from indexOf_found [OF this] show ?thesis by blast
qed

lemma titleDiagnostic_line:
  assumes "indexOf ft t = int i"
  shows "titleDiagnostic ft t =
     \<lparr>severity = Error,
      drange = \<lparr>range_start = \<lparr>line = int (length (filter (\<lambda>c. c = newline) (take i ft))),
                                character = 0\<rparr>,
                range_end = \<lparr>line = int (length (filter (\<lambda>c. c = newline) (take i ft))),
                              character = int (length t)\<rparr>\<rparr>,
      message = ''<title> can contain only text''\<rparr>"
  by (simp add: titleDiagnostic_def lineDiagnostic_def lineOf_line_feeds assms)

section \<open>The block under try\<close>












section \<open>The claims\<close>

text \<open>
  Claim C1 says that the pass yields no diagnostic for the well-formed document
  \<^verbatim>\<open><html><head><title>T</title></head><body><div><span>x</span></div></body></html>\<close>.
  The code yields four: \<^verbatim>\<open>validateHeadContent\<close> and \<^verbatim>\<open>validateBodyContent\<close> receive the
  whole matched element (\<^verbatim>\<open>headMatches[0]\<close>, \<^verbatim>\<open>bodyMatches[0]\<close>), so the element's own
  opening and closing tags are among the scanned tokens, and \<^verbatim>\<open>head\<close> and
  \<^verbatim>\<open>body\<close> are in neither permitted set. The theorem evaluates the pass on the document.
\<close>

theorem C1_wellformed_document_flagged:
  "validate wellFormedDocument =
     [lineDiagnostic wellFormedDocument 6 6 ''<head> may contain only <title> or <meta> elements'',
      lineDiagnostic wellFormedDocument 28 7 ''<head> may contain only <title> or <meta> elements'',
      lineDiagnostic wellFormedDocument 35 6 ''<body> may contain only <div> or <span> elements'',
      lineDiagnostic wellFormedDocument 66 7 ''<body> may contain only <div> or <span> elements'']"
  by code_simp

text \<open>
  Claim C2 says that the body content validator emits exactly one diagnostic for the
  body content \<^verbatim>\<open><p>hi</p>\<close>. It emits two on that text, and four on the matched element
  \<^verbatim>\<open><body><p>hi</p></body>\<close>.
\<close>

theorem C2_counterexample:
  "length (validateBodyContent ''<p>hi</p>'' ''<p>hi</p>'' []) = 2 \<and>
   length (validateBodyContent ''<body><p>hi</p></body>'' ''<body><p>hi</p></body>'' []) = 4"
  by code_simp

text \<open>
  Claim C2 as amended: rule 4 pushes one diagnostic with the message
  \<^verbatim>\<open><body> may contain only <div> or <span> elements\<close> for each disallowed token of the
  text it is given, opening or closing, in scan order; on the text \<^verbatim>\<open><p>hi</p>\<close> the tokens
  are \<^verbatim>\<open><p>\<close> and \<^verbatim>\<open></p>\<close>, and the validator emits two diagnostics, the first for
  \<^verbatim>\<open><p>\<close> and the second for \<^verbatim>\<open></p>\<close>.
\<close>

theorem C2_body_tokens:
  "bodyElements bc ft ds =
     ds @ map (bodyDiagnostic ft) (filter bodyDisallowed (matches elementRegex bc)) \<and>
   message (bodyDiagnostic ft e) = ''<body> may contain only <div> or <span> elements'' \<and>
   matches elementRegex ''<p>hi</p>'' = [''<p>'', ''</p>''] \<and>
   validateBodyContent ''<p>hi</p>'' ''<p>hi</p>'' [] =
     [bodyDiagnostic ''<p>hi</p>'' ''<p>'', bodyDiagnostic ''<p>hi</p>'' ''</p>'']"
proof -
  have "matches elementRegex ''<p>hi</p>'' = [''<p>'', ''</p>'']" by code_simp
  moreover have "validateBodyContent ''<p>hi</p>'' ''<p>hi</p>'' [] =
     [bodyDiagnostic ''<p>hi</p>'' ''<p>'', bodyDiagnostic ''<p>hi</p>'' ''</p>'']" by code_simp
  ultimately show ?thesis
    by (simp add: bodyElements_flagged bodyDiagnostic_def lineDiagnostic_def)
qed

text \<open>
  Claim C3: when the trimmed text does not start with \<^verbatim>\<open><html>\<close>, the output holds the
  diagnostic of rule 1 for the start, with the range (0,0)-(0,6); when the trimmed text
  does not end with \<^verbatim>\<open></html>\<close>, the output holds the diagnostic of rule 1 for the end,
  on the last line, from column \<open>max 0 (n - 7)\<close> to column \<open>n\<close> for a last line of \<open>n\<close>
  characters. The two conditions are independent, and the witness is a text on which
  both diagnostics are emitted.
\<close>

theorem C3_root_bounds:
  "(\<not> startsWith (trim t) ''<html>'' \<longrightarrow>
      startDiagnostic \<in> set (validate t) \<and>
      drange startDiagnostic =
        \<lparr>range_start = \<lparr>line = 0, character = 0\<rparr>,
         range_end = \<lparr>line = 0, character = 6\<rparr>\<rparr>) \<and>
   (\<not> endsWith (trim t) ''</html>'' \<longrightarrow>
      endDiagnostic t \<in> set (validate t) \<and>
      drange (endDiagnostic t) =
        \<lparr>range_start = \<lparr>line = int (length (split_lines t)) - 1,
                         character = max 0 (int (length (last (split_lines t))) - 7)\<rparr>,
         range_end = \<lparr>line = int (length (split_lines t)) - 1,
                       character = int (length (last (split_lines t)))\<rparr>\<rparr>)"
  by (simp add: validate_pushes rule1_def Let_def endDiagnostic_range startDiagnostic_def)

theorem C3_root_bounds_witness:
  "\<not> startsWith (trim ''abc'') ''<html>'' \<and> \<not> endsWith (trim ''abc'') ''</html>'' \<and>
   startDiagnostic \<in> set (validate ''abc'') \<and> endDiagnostic ''abc'' \<in> set (validate ''abc'')"
proof -
  have h1: "\<not> startsWith (trim ''abc'') ''<html>''" by code_simp
  have h2: "\<not> endsWith (trim ''abc'') ''</html>''" by code_simp
  from C3_root_bounds [of "''abc''"] h1 h2 show ?thesis by blast
qed

text \<open>
  Claim C4 says that the diagnostic of rule 2 sits on the line of the first occurrence of
  \<^verbatim>\<open><head\<close> in the whole document whenever there is one. In the document below the
  first \<^verbatim>\<open><head\<close> is at offset 1, on line 1, before the html element; the content of the
  html element holds no \<^verbatim>\<open><head\<close>, and the diagnostic is on line 0.
\<close>

theorem C4_counterexample:
  "indexOf strayHeadDocument ''<head'' = 1 \<and> lineOf strayHeadDocument 1 = 1 \<and>
   filter (\<lambda>d. message d = ''HTML must contain exactly one <head> element'')
     (validate strayHeadDocument) =
     [\<lparr>severity = Error,
       drange = \<lparr>range_start = \<lparr>line = 0, character = 0\<rparr>,
                 range_end = \<lparr>line = 0, character = 10\<rparr>\<rparr>,
       message = ''HTML must contain exactly one <head> element''\<rparr>]"
  by code_simp

text \<open>
  Claim C4 as amended: the pass pushes, after the diagnostics of rule 1, what the loop
  body pushes for each match of the html expression in turn. For each match, the matches
  of the head and of the body expression in the captured content are counted
  independently; the diagnostic of rule 2 for head (for body) is pushed if and only if
  that count differs from 1. It spans columns 0 to 10 of the line of the first
  occurrence of \<^verbatim>\<open><head\<close> (\<^verbatim>\<open><body\<close>) in the whole document when the captured
  content holds that text, and of line 0 otherwise. A document whose html content holds
  two head blocks and one body block gets one diagnostic of rule 2 for head and none for
  body.
\<close>

theorem C4_cardinality:
  "validate text = rule1 text [] @ loopDiagnostics text 0 \<and>
   loopDiagnostics text i =
     (case regex_exec htmlRegex text i of
        None \<Rightarrow> []
      | Some m \<Rightarrow> stepDiagnostics text m @ loopDiagnostics text (index m + length (matched m))) \<and>
   filter (\<lambda>d. message d = ''HTML must contain exactly one <head> element'')
     (stepDiagnostics text m) =
     (if length (matches (pairRegex ''head'') (group1 m)) \<noteq> 1
      then [\<lparr>severity = Error,
             drange =
               \<lparr>range_start =
                  \<lparr>line = lineOf text (if str_includes (group1 m) ''<head''
                                         then indexOf text ''<head'' else 0),
                   character = 0\<rparr>,
                range_end =
                  \<lparr>line = lineOf text (if str_includes (group1 m) ''<head''
                                         then indexOf text ''<head'' else 0),
                   character = 10\<rparr>\<rparr>,
             message = ''HTML must contain exactly one <head> element''\<rparr>]
      else []) \<and>
   filter (\<lambda>d. message d = ''HTML must contain exactly one <body> element'')
     (stepDiagnostics text m) =
     (if length (matches (pairRegex ''body'') (group1 m)) \<noteq> 1
      then [\<lparr>severity = Error,
             drange =
               \<lparr>range_start =
                  \<lparr>line = lineOf text (if str_includes (group1 m) ''<body''
                                         then indexOf text ''<body'' else 0),
                   character = 0\<rparr>,
                range_end =
                  \<lparr>line = lineOf text (if str_includes (group1 m) ''<body''
                                         then indexOf text ''<body'' else 0),
                   character = 10\<rparr>\<rparr>,
             message = ''HTML must contain exactly one <body> element''\<rparr>]
      else []) \<and>
   length (filter (\<lambda>d. message d = ''HTML must contain exactly one <head> element'')
     (validate twoHeadsDocument)) = 1 \<and>
   filter (\<lambda>d. message d = ''HTML must contain exactly one <body> element'')
     (validate twoHeadsDocument) = []"
proof -
  let ?headMessage = "''HTML must contain exactly one <head> element''"
  let ?bodyMessage = "''HTML must contain exactly one <body> element''"
  have c1: "filter (\<lambda>d. message d = ?headMessage) (contentDiagnostics text m) = []"
    by (rule filter_none) (auto dest!: content_messages simp: nestingMessages_def)
  have c2: "filter (\<lambda>d. message d = ?bodyMessage) (contentDiagnostics text m) = []"
    by (rule filter_none) (auto dest!: content_messages simp: nestingMessages_def)
  have v: "validate text = rule1 text [] @ loopDiagnostics text 0"
    by (rule validate_pushes)
  have l: "loopDiagnostics text i =
     (case regex_exec htmlRegex text i of
        None \<Rightarrow> []
      | Some m \<Rightarrow> stepDiagnostics text m @ loopDiagnostics text (index m + length (matched m)))"
    by (rule loopDiagnostics_unfold)
  have f1: "filter (\<lambda>d. message d = ?headMessage) (stepDiagnostics text m) =
     (if length (matches (pairRegex ''head'') (group1 m)) \<noteq> 1
      then [\<lparr>severity = Error,
             drange =
               \<lparr>range_start =
                  \<lparr>line = lineOf text (if str_includes (group1 m) ''<head''
                                         then indexOf text ''<head'' else 0),
                   character = 0\<rparr>,
                range_end =
                  \<lparr>line = lineOf text (if str_includes (group1 m) ''<head''
                                         then indexOf text ''<head'' else 0),
                   character = 10\<rparr>\<rparr>,
             message = ?headMessage\<rparr>]
      else [])"
    unfolding stepDiagnostics_eq
    by (simp add: c1 headCardinality_def bodyCardinality_def lineDiagnostic_def)
  have f2: "filter (\<lambda>d. message d = ?bodyMessage) (stepDiagnostics text m) =
     (if length (matches (pairRegex ''body'') (group1 m)) \<noteq> 1
      then [\<lparr>severity = Error,
             drange =
               \<lparr>range_start =
                  \<lparr>line = lineOf text (if str_includes (group1 m) ''<body''
                                         then indexOf text ''<body'' else 0),
                   character = 0\<rparr>,
                range_end =
                  \<lparr>line = lineOf text (if str_includes (group1 m) ''<body''
                                         then indexOf text ''<body'' else 0),
                   character = 10\<rparr>\<rparr>,
             message = ?bodyMessage\<rparr>]
      else [])"
    unfolding stepDiagnostics_eq
    by (simp add: c2 headCardinality_def bodyCardinality_def lineDiagnostic_def)
  have e1: "length (filter (\<lambda>d. message d = ?headMessage) (validate twoHeadsDocument)) = 1"
    by code_simp
  have e2: "filter (\<lambda>d. message d = ?bodyMessage) (validate twoHeadsDocument) = []"
    by code_simp
  show ?thesis
    by (intro conjI) (rule v l f1 f2 e1 e2)+
qed

text \<open>
  Claim C5 says that the diagnostic of rule 5 is located at the first occurrence of the
  matched text in the full document. The code takes from that occurrence only its line:
  the range starts at column 0 of the line and ends at the column that is the length of
  the match. In the text below the first occurrence of \<^verbatim>\<open><title><b>x</b></title>\<close> is at
  offset 36, which is column 23 of line 1, and ends at column 46; the diagnostic covers
  the columns 0 to 23 of line 1, the text before the occurrence.
\<close>

theorem C5_counterexample:
  "matches (pairRegexG ''title'') titleAfterSpanDocument = [''<title><b>x</b></title>''] \<and>
   indexOf titleAfterSpanDocument ''<title><b>x</b></title>'' = 36 \<and>
   split_lines (take 36 titleAfterSpanDocument) = [''<div>a</div>'', ''<span>some text</span> ''] \<and>
   length ''<span>some text</span> '' = 23 \<and>
   validateNesting titleAfterSpanDocument titleAfterSpanDocument [] [] =
     [\<lparr>severity = Error,
       drange = \<lparr>range_start = \<lparr>line = 1, character = 0\<rparr>,
                 range_end = \<lparr>line = 1, character = 23\<rparr>\<rparr>,
       message = ''<title> can contain only text''\<rparr>]"
  by code_simp

text \<open>
  Claim C5 as amended: for every fragment that the nesting validator processes and every
  match of the title expression in it, a diagnostic is pushed if and only if the
  captured inner text holds a \<^verbatim>\<open><\<close>. When the root fragment lies in the full document,
  the matched text occurs in the document, and the diagnostic is the error with the
  message of rule 5 whose range goes from column 0 to the column that is the length of
  the match, on the line of the first occurrence of the matched text: the line whose
  number is the number of line feeds before that occurrence. The fragment
  \<^verbatim>\<open><title><b>bold</b></title>\<close> gets exactly one diagnostic.
\<close>

theorem C5_title_text_only:
  "(processed root c \<and> t \<in> set (matches (pairRegexG ''title'') c) \<and> titleViolation t \<longrightarrow>
      titleDiagnostic ft t \<in> set (validateNesting root ft ds ctx)) \<and>
   (d \<in> set (validateNesting root ft [] ctx) \<and> message d = ''<title> can contain only text'' \<longrightarrow>
      (\<exists>c t. processed root c \<and> t \<in> set (matches (pairRegexG ''title'') c) \<and>
             titleViolation t \<and> d = titleDiagnostic ft t)) \<and>
   titleRule c ft ds =
     ds @ map (titleDiagnostic ft) (filter titleViolation (matches (pairRegexG ''title'') c)) \<and>
   (processed root c \<and> t \<in> set (matches (pairRegexG ''title'') c) \<and> ft = pre @ root @ post \<longrightarrow>
      (\<exists>i. indexOf ft t = int i \<and> i \<le> length ft \<and>
           (\<exists>r. drop i ft = t @ r) \<and> (\<forall>j < i. \<nexists>r. drop j ft = t @ r) \<and>
           titleDiagnostic ft t =
             \<lparr>severity = Error,
              drange =
                \<lparr>range_start =
                   \<lparr>line = int (length (filter (\<lambda>c. c = newline) (take i ft))), character = 0\<rparr>,
                 range_end =
                   \<lparr>line = int (length (filter (\<lambda>c. c = newline) (take i ft))),
                    character = int (length t)\<rparr>\<rparr>,
              message = ''<title> can contain only text''\<rparr>)) \<and>
   validateNesting ''<title><b>bold</b></title>'' ''<title><b>bold</b></title>'' [] [] =
     [\<lparr>severity = Error,
       drange = \<lparr>range_start = \<lparr>line = 0, character = 0\<rparr>,
                 range_end = \<lparr>line = 0, character = 26\<rparr>\<rparr>,
       message = ''<title> can contain only text''\<rparr>]"
proof -
  have a: "titleDiagnostic ft t \<in> set (validateNesting root ft ds ctx)"
    if "processed root c" "t \<in> set (matches (pairRegexG ''title'') c)" "titleViolation t"
  proof -
    from that(2,3) have "titleDiagnostic ft t \<in> set (nestingDiagnostics c ft)"
      unfolding nestingDiagnostics_unfold [of c ft] by (auto simp: titleStep_eq)
    with processed_subset [OF that(1)] show ?thesis
      by (auto simp: validateNesting_pushes)
  qed
  have b: "\<exists>c t. processed root c \<and> t \<in> set (matches (pairRegexG ''title'') c) \<and>
             titleViolation t \<and> d = titleDiagnostic ft t"
    if "d \<in> set (validateNesting root ft [] ctx)" "message d = ''<title> can contain only text''"
    using that by (intro title_diagnostic_origin) (simp_all add: validateNesting_pushes)
  have l: "\<exists>i. indexOf ft t = int i \<and> i \<le> length ft \<and>
           (\<exists>r. drop i ft = t @ r) \<and> (\<forall>j < i. \<nexists>r. drop j ft = t @ r) \<and>
           titleDiagnostic ft t =
             \<lparr>severity = Error,
              drange =
                \<lparr>range_start =
                   \<lparr>line = int (length (filter (\<lambda>c. c = newline) (take i ft))), character = 0\<rparr>,
                 range_end =
                   \<lparr>line = int (length (filter (\<lambda>c. c = newline) (take i ft))),
                    character = int (length t)\<rparr>\<rparr>,
              message = ''<title> can contain only text''\<rparr>"
    if "processed root c" "t \<in> set (matches (pairRegexG ''title'') c)" "ft = pre @ root @ post"
  proof -
    from title_match_located [OF that] obtain i where i: "indexOf ft t = int i" by blast
    from i indexOf_first [OF i] titleDiagnostic_line [OF i] show ?thesis by blast
  qed
  have e: "validateNesting ''<title><b>bold</b></title>'' ''<title><b>bold</b></title>'' [] [] =
     [\<lparr>severity = Error,
       drange = \<lparr>range_start = \<lparr>line = 0, character = 0\<rparr>,
                 range_end = \<lparr>line = 0, character = 26\<rparr>\<rparr>,
       message = ''<title> can contain only text''\<rparr>]"
    by code_simp
  from a b l e show ?thesis
    by (simp only: titleRule_flagged) blast
qed

theorem C5_title_text_only_witness:
  "processed titleAfterSpanDocument titleAfterSpanDocument \<and>
   ''<title><b>x</b></title>'' \<in> set (matches (pairRegexG ''title'') titleAfterSpanDocument) \<and>
   titleViolation ''<title><b>x</b></title>'' \<and>
   titleAfterSpanDocument = [] @ titleAfterSpanDocument @ [] \<and>
   titleDiagnostic titleAfterSpanDocument ''<title><b>x</b></title>''
     \<in> set (validateNesting titleAfterSpanDocument titleAfterSpanDocument [] []) \<and>
   titleDiagnostic titleAfterSpanDocument ''<title><b>x</b></title>'' =
     \<lparr>severity = Error,
      drange = \<lparr>range_start = \<lparr>line = 1, character = 0\<rparr>,
                range_end = \<lparr>line = 1, character = 23\<rparr>\<rparr>,
      message = ''<title> can contain only text''\<rparr>"
proof -
  have p: "processed titleAfterSpanDocument titleAfterSpanDocument" by (rule processed.root)
  have t: "''<title><b>x</b></title>'' \<in> set (matches (pairRegexG ''title'') titleAfterSpanDocument)"
    by code_simp
  have v: "titleViolation ''<title><b>x</b></title>''" by code_simp
  have f: "titleAfterSpanDocument = [] @ titleAfterSpanDocument @ []" by simp
  have i: "indexOf titleAfterSpanDocument ''<title><b>x</b></title>'' = int 36" by code_simp
  have n: "length (filter (\<lambda>c. c = newline) (take 36 titleAfterSpanDocument)) = 1" by code_simp
  from C5_title_text_only [of titleAfterSpanDocument titleAfterSpanDocument
      "''<title><b>x</b></title>''" titleAfterSpanDocument "[]" "[]" _ "[]" "[]"] p t v f
  have m: "titleDiagnostic titleAfterSpanDocument ''<title><b>x</b></title>''
      \<in> set (validateNesting titleAfterSpanDocument titleAfterSpanDocument [] [])"
    and "\<exists>i. indexOf titleAfterSpanDocument ''<title><b>x</b></title>'' = int i \<and>
           titleDiagnostic titleAfterSpanDocument ''<title><b>x</b></title>'' =
             \<lparr>severity = Error,
              drange =
                \<lparr>range_start =
                   \<lparr>line = int (length (filter (\<lambda>c. c = newline) (take i titleAfterSpanDocument))),
                    character = 0\<rparr>,
                 range_end =
                   \<lparr>line = int (length (filter (\<lambda>c. c = newline) (take i titleAfterSpanDocument))),
                    character = int (length ''<title><b>x</b></title>'')\<rparr>\<rparr>,
              message = ''<title> can contain only text''\<rparr>"
    by blast+
  then obtain k where k: "indexOf titleAfterSpanDocument ''<title><b>x</b></title>'' = int k"
    and d: "titleDiagnostic titleAfterSpanDocument ''<title><b>x</b></title>'' =
             \<lparr>severity = Error,
              drange =
                \<lparr>range_start =
                   \<lparr>line = int (length (filter (\<lambda>c. c = newline) (take k titleAfterSpanDocument))),
                    character = 0\<rparr>,
                 range_end =
                   \<lparr>line = int (length (filter (\<lambda>c. c = newline) (take k titleAfterSpanDocument))),
                    character = int (length ''<title><b>x</b></title>'')\<rparr>\<rparr>,
              message = ''<title> can contain only text''\<rparr>"
    by blast
  from k i have "k = 36" by simp
  with d n have "titleDiagnostic titleAfterSpanDocument ''<title><b>x</b></title>'' =
     \<lparr>severity = Error,
      drange = \<lparr>range_start = \<lparr>line = 1, character = 0\<rparr>,
                range_end = \<lparr>line = 1, character = 23\<rparr>\<rparr>,
      message = ''<title> can contain only text''\<rparr>"
    by simp
  with p t v f m show ?thesis by blast
qed

text \<open>
  Claim C6: for every fragment that the nesting validator processes, at any depth, and
  every match of the span expression in it whose inner text holds an opening tag of a
  div, the diagnostic \<^verbatim>\<open><span> cannot contain <div> elements\<close> is pushed (and every
  diagnostic with that message comes from such a match). The fragment
  \<^verbatim>\<open><span><div>x</div></span>\<close> gets exactly one diagnostic.
\<close>

theorem C6_span_excludes_div:
  "(processed root c \<and> s \<in> set (matches (pairRegex ''span'') c) \<and> spanViolation s \<longrightarrow>
      spanDiagnostic ft s \<in> set (validateNesting root ft ds ctx)) \<and>
   (d \<in> set (validateNesting root ft [] ctx) \<and>
    message d = ''<span> cannot contain <div> elements'' \<longrightarrow>
      (\<exists>c s. processed root c \<and> s \<in> set (matches (pairRegex ''span'') c) \<and>
             spanViolation s \<and> d = spanDiagnostic ft s)) \<and>
   spanRule c ft ds =
     ds @ map (spanDiagnostic ft) (filter spanViolation (matches (pairRegex ''span'') c)) \<and>
   message (spanDiagnostic ft s) = ''<span> cannot contain <div> elements'' \<and>
   validateNesting ''<span><div>x</div></span>'' ''<span><div>x</div></span>'' [] [] =
     [spanDiagnostic ''<span><div>x</div></span>'' ''<span><div>x</div></span>'']"
proof -
  have a: "spanDiagnostic ft s \<in> set (validateNesting root ft ds ctx)"
    if "processed root c" "s \<in> set (matches (pairRegex ''span'') c)" "spanViolation s"
  proof -
    from that(2,3) have "spanDiagnostic ft s \<in> set (nestingDiagnostics c ft)"
      unfolding nestingDiagnostics_unfold [of c ft] by (auto simp: spanStep_eq)
    with processed_subset [OF that(1)] show ?thesis
      by (auto simp: validateNesting_pushes)
  qed
  have b: "\<exists>c s. processed root c \<and> s \<in> set (matches (pairRegex ''span'') c) \<and>
             spanViolation s \<and> d = spanDiagnostic ft s"
    if "d \<in> set (validateNesting root ft [] ctx)"
      "message d = ''<span> cannot contain <div> elements''"
    using that by (intro span_diagnostic_origin) (simp_all add: validateNesting_pushes)
  have e: "validateNesting ''<span><div>x</div></span>'' ''<span><div>x</div></span>'' [] [] =
     [spanDiagnostic ''<span><div>x</div></span>'' ''<span><div>x</div></span>'']"
    by code_simp
  from a b e show ?thesis
    by (simp add: spanRule_flagged spanDiagnostic_def lineDiagnostic_def)
qed

theorem C6_span_excludes_div_witness:
  "processed ''<div><span><div></span></div>'' ''<span><div></span>'' \<and>
   ''<span><div></span>'' \<in> set (matches (pairRegex ''span'') ''<span><div></span>'') \<and>
   spanViolation ''<span><div></span>'' \<and>
   spanDiagnostic ''<div><span><div></span></div>'' ''<span><div></span>''
     \<in> set (validateNesting ''<div><span><div></span></div>''
              ''<div><span><div></span></div>'' [] [])"
proof -
  have m: "''<div><span><div></span></div>''
      \<in> set (matches (pairRegexG ''div'') ''<div><span><div></span></div>'')"
    by code_simp
  have i: "match_first (pairRegexG ''div'') ''<div><span><div></span></div>'' =
      Some \<lparr>index = 0, matched = ''<div><span><div></span></div>'',
            group1 = ''<span><div></span>''\<rparr>"
    by code_simp
  have p: "processed ''<div><span><div></span></div>'' ''<span><div></span>''"
    using processed.inner [OF processed.root _ m i] by simp
  have t: "''<span><div></span>'' \<in> set (matches (pairRegex ''span'') ''<span><div></span>'')"
    by code_simp
  have v: "spanViolation ''<span><div></span>''" by code_simp
  from C6_span_excludes_div [of "''<div><span><div></span></div>''" "''<span><div></span>''"
      "''<span><div></span>''" "''<div><span><div></span></div>''" "[]" "[]"] p t v
  show ?thesis by blast
qed

text \<open>
  Claim C7: in both content validators a token that contains \<^verbatim>\<open>/>\<close> is never flagged,
  whatever its name: the step of the loop leaves the diagnostics as they are, and the
  diagnostics of rule 3 and of rule 4 are exactly one per token that satisfies the
  condition of the rule, which no token containing \<^verbatim>\<open>/>\<close> does.
\<close>

theorem C7_self_closing_exempt:
  "(str_includes element ''/>'' \<longrightarrow>
      \<not> headDisallowed element \<and> \<not> bodyDisallowed element \<and>
      headStep ft ds element = ds \<and> bodyStep ft ds element = ds) \<and>
   validateHeadContent hc ft ds =
     ds @ map (headDiagnostic ft) (filter headDisallowed (matches elementRegex hc)) \<and>
   bodyElements bc ft ds =
     ds @ map (bodyDiagnostic ft) (filter bodyDisallowed (matches elementRegex bc))"
proof -
  have "str_includes element ''/>'' \<Longrightarrow> \<not> headDisallowed element \<and> \<not> bodyDisallowed element"
    by (simp add: headDisallowed_def bodyDisallowed_def split: option.splits)
  moreover have "headStep ft ds element = ds @ headStep ft [] element"
    by (rule headStep_append)
  moreover have "bodyStep ft ds element = ds @ bodyStep ft [] element"
    by (rule bodyStep_append)
  ultimately show ?thesis
    by (simp add: headStep_eq bodyStep_eq validateHeadContent_flagged bodyElements_flagged)
qed

theorem C7_self_closing_exempt_witness:
  "str_includes ''<br/>'' ''/>'' \<and>
   headStep ''<br/><p>'' [] ''<br/>'' = [] \<and> bodyStep ''<br/><p>'' [] ''<br/>'' = [] \<and>
   validateHeadContent ''<br/><p>'' ''<br/><p>'' [] = [headDiagnostic ''<br/><p>'' ''<p>''] \<and>
   bodyElements ''<br/><p>'' ''<br/><p>'' [] = [bodyDiagnostic ''<br/><p>'' ''<p>'']"
proof -
  have h: "str_includes ''<br/>'' ''/>''" by code_simp
  have m: "matches elementRegex ''<br/><p>'' = [''<br/>'', ''<p>'']" by code_simp
  have p: "headDisallowed ''<p>''" "bodyDisallowed ''<p>''" by code_simp+
  from C7_self_closing_exempt [of "''<br/>''" "''<br/><p>''" "[]" "''<br/><p>''" "''<br/><p>''"] h
  show ?thesis by (simp add: m p)
qed




text \<open>
  Claim C9: the nesting validator terminates on every input (it is defined with a
  termination proof, by the length of the fragment): every recursive call is on the
  captured text of a match, which is strictly shorter than the match and lies inside it
  after a non-empty prefix, and the match lies inside the fragment. On every valid
  nesting of divs and spans around text, of any depth, it pushes no diagnostic; this
  holds in particular for a span inside 300 nested divs.
\<close>

theorem C9_nesting_terminates:
  "(m \<in> set (matches (pairRegexG name) c) \<and> match_first (pairRegexG name) m = Some ic \<longrightarrow>
      length (group1 ic) < length m \<and> length m \<le> length c \<and>
      (\<exists>p q. m = p @ group1 ic @ q \<and> p \<noteq> []) \<and> (\<exists>p q. c = p @ m @ q)) \<and>
   ((\<forall>n \<in> set forest. valid n) \<longrightarrow>
      validateNesting (concat (map render forest)) ft ds ctx = ds) \<and>
   validateNesting (render (nestedDiv 300)) ft ds ctx = ds"
proof -
  have "validateNesting (concat (map render [nestedDiv 300])) ft ds ctx = ds"
    using valid_forest_clean [of "[nestedDiv 300]" ft]
    by (simp add: validateNesting_pushes nestedDiv_valid)
  moreover have "length (group1 ic) < length m \<and> length m \<le> length c \<and>
      (\<exists>p q. m = p @ group1 ic @ q \<and> p \<noteq> []) \<and> (\<exists>p q. c = p @ m @ q)"
    if "m \<in> set (matches (pairRegexG name) c)" "match_first (pairRegexG name) m = Some ic"
    using group1_shorter [OF that(2)] matches_length [OF that(1)]
      match_inside_fragment [OF that(1)] group_inside_match [OF that(2)]
    by blast
  moreover have "validateNesting (concat (map render forest)) ft ds ctx = ds"
    if "\<forall>n \<in> set forest. valid n"
    using that valid_forest_clean [of forest ft] by (simp add: validateNesting_pushes)
  ultimately show ?thesis by simp
qed

theorem C9_nesting_terminates_witness:
  "''<div><span>x</span></div>'' \<in> set (matches (pairRegexG ''div'') ''<div><span>x</span></div>'') \<and>
   match_first (pairRegexG ''div'') ''<div><span>x</span></div>'' =
     Some \<lparr>index = 0, matched = ''<div><span>x</span></div>'', group1 = ''<span>x</span>''\<rparr> \<and>
   valid (Div [Div [Span [Text ''x'']]]) \<and> valid (Span [Span [Text ''y'']]) \<and>
   concat (map render [Div [Div [Span [Text ''x'']]], Span [Span [Text ''y'']]]) =
     ''<div><div><span>x</span></div></div><span><span>y</span></span>'' \<and>
   validateNesting ''<div><div><span>x</span></div></div><span><span>y</span></span>''
     ''<div><div><span>x</span></div></div><span><span>y</span></span>'' [] [] = []"
proof -
  have m: "''<div><span>x</span></div>''
      \<in> set (matches (pairRegexG ''div'') ''<div><span>x</span></div>'')" by code_simp
  have i: "match_first (pairRegexG ''div'') ''<div><span>x</span></div>'' =
     Some \<lparr>index = 0, matched = ''<div><span>x</span></div>'', group1 = ''<span>x</span>''\<rparr>"
    by code_simp
  have v: "valid (Div [Div [Span [Text ''x'']]])" "valid (Span [Span [Text ''y'']])"
    by simp_all
  have r: "concat (map render [Div [Div [Span [Text ''x'']]], Span [Span [Text ''y'']]]) =
     ''<div><div><span>x</span></div></div><span><span>y</span></span>''"
    by (simp add: render_def)
  from C9_nesting_terminates [of "''<div><span>x</span></div>''" "''div''"
      "''<div><span>x</span></div>''" _
      "[Div [Div [Span [Text ''x'']]], Span [Span [Text ''y'']]]"
      "''<div><div><span>x</span></div></div><span><span>y</span></span>''" "[]" "[]"] m i v r
  show ?thesis by simp
qed



end
